theory Spec2Isabelle
  imports Main "HOL-Library.Multiset"
begin

section \<open>Data model\<close>

text \<open>
  Go strings are byte strings; \<open>string\<close> is a list of bytes as well.

  \<open>strings.EqualFold\<close> compares two strings under Unicode simple case folding: they are
  equal when their folded forms are the same. The folded form is the parameter
  \<open>foldCase\<close> of \<open>EqualFold\<close> and of every function that folds case. Nothing is assumed
  about it, so what is proved holds for the folding of the Go library.

  Modelled from the spec: the case-insensitive identifier type \<open>CIStr\<close> of package
  \<open>types\<close> is not part of the sources at hand. The spec describes it as a string that is
  compared through a folded form; \<open>EqString\<close> stands for the method \<open>CIStr.EqString\<close>.
  Where an identifier is written into a statement, its original form is used.
\<close>

type_synonym CIStr = string

definition EqualFold :: "(string \<Rightarrow> string) \<Rightarrow> string \<Rightarrow> string \<Rightarrow> bool" where
  "EqualFold foldCase s t = (foldCase s = foldCase t)"

definition EqString :: "(string \<Rightarrow> string) \<Rightarrow> CIStr \<Rightarrow> string \<Rightarrow> bool" where
  "EqString foldCase c s = EqualFold foldCase c s"

text \<open>
  \<open>to_lower\<close> folds the ASCII letters and leaves every other byte as it is. Two strings
  of ASCII characters have the same folded form under it exactly when they have under
  the Unicode folding; it is the folding with which the functions are evaluated on
  concrete identifiers, all of them ASCII.
\<close>

definition lower_char :: "char \<Rightarrow> char" where
  "lower_char c =
     (let n = (of_char c :: nat) in if 65 \<le> n \<and> n \<le> 90 then char_of (n + 32) else c)"

definition to_lower :: "string \<Rightarrow> string" where
  "to_lower s = map lower_char s"

text \<open>
  \<open>types.Column\<close> and \<open>types.Table\<close>, with the fields the sources read and write.
  \<open>Column_Type\<close> and \<open>Column_Length\<close> are the type descriptor that \<open>ParseType\<close> fills in.
\<close>

record Column =
  Column_Table :: CIStr
  Column_Name :: CIStr
  Column_Type :: string
  Column_Length :: int
  Column_Null :: bool

record Table =
  Table_Name :: CIStr
  Table_Columns :: "Column list"
  Table_Indexes :: "CIStr list"
  Table_Type :: string

text \<open>
  \<open>connection.QueryItem\<close>: one cell of a result set. \<open>ValType\<close> holds what
  \<open>c.ValType.Name()\<close> returns, the only use the sources make of the type tag.
  A \<open>*QueryItem\<close> is a \<open>QueryItem option\<close>, \<open>None\<close> being the nil pointer; a result set
  \<open>[][]*QueryItem\<close> is a list of rows of such pointers. A pivot row
  \<open>map[string]*QueryItem\<close> is a partial map: looking up a missing key yields nil in Go,
  the same as a key bound to nil.
\<close>

record QueryItem =
  Null :: bool
  ValType :: string
  ValString :: string

type_synonym row = "QueryItem option list"
type_synonym pivotRows = "string \<rightharpoonup> QueryItem"

text \<open>Run-time panics and fatal log calls of the orchestrator, and errors returned as values.\<close>

datatype panic =
    NilDereference
  | IndexOutOfRange
  | SliceBoundsOutOfRange
  | IntnInvalidArgument
  | PanicErr string
  | PanicMsg string
  | Fatal string

section \<open>PQS verification\<close>

text \<open>
  \<open>compareQueryItem\<close> reads \<open>left.Null\<close> and \<open>right.Null\<close> first: either pointer being nil
  is a nil dereference.
\<close>

definition compareQueryItem :: "QueryItem option \<Rightarrow> QueryItem option \<Rightarrow> panic + bool" where
  "compareQueryItem left right =
     (case left of
        None \<Rightarrow> Inl NilDereference
      | Some l \<Rightarrow>
          (case right of
             None \<Rightarrow> Inl NilDereference
           | Some r \<Rightarrow>
               if Null l \<noteq> Null r then Inr False
               else Inr ((Null l \<and> Null r) \<or> ValString l = ValString r)))"

text \<open>
  \<open>checkRow\<close> walks the columns with their index \<open>i\<close> and reads \<open>resultSet[i]\<close>: the model
  walks the columns and the row together, and an exhausted row is the index out of range.
  The parameter \<open>aliasName\<close> stands for \<open>c.GetAliasName().String()\<close>, a method of package
  \<open>types\<close>.
\<close>

fun checkRow :: "(Column \<Rightarrow> string) \<Rightarrow> pivotRows \<Rightarrow> Column list \<Rightarrow> row \<Rightarrow> panic + bool" where
  "checkRow aliasName originRow [] resultSet = Inr True"
| "checkRow aliasName originRow (c # cs) [] = Inl IndexOutOfRange"
| "checkRow aliasName originRow (c # cs) (r # rs) =
     (case compareQueryItem (originRow (aliasName c)) r of
        Inl e \<Rightarrow> Inl e
      | Inr b \<Rightarrow> if \<not> b then Inr False else checkRow aliasName originRow cs rs)"

fun verifyPQS :: "(Column \<Rightarrow> string) \<Rightarrow> pivotRows \<Rightarrow> Column list \<Rightarrow> row list \<Rightarrow> panic + bool" where
  "verifyPQS aliasName originRow columns [] = Inr False"
| "verifyPQS aliasName originRow columns (row # resultSets) =
     (case checkRow aliasName originRow columns row of
        Inl e \<Rightarrow> Inl e
      | Inr b \<Rightarrow> if b then Inr True else verifyPQS aliasName originRow columns resultSets)"

text \<open>The precondition under which \<open>checkRow\<close> and \<open>verifyPQS\<close> are free of panics.\<close>

definition row_covers :: "Column list \<Rightarrow> row \<Rightarrow> bool" where
  "row_covers columns r = (length columns \<le> length r \<and> (\<forall>i < length columns. r ! i \<noteq> None))"

definition pivot_covers :: "(Column \<Rightarrow> string) \<Rightarrow> pivotRows \<Rightarrow> Column list \<Rightarrow> bool" where
  "pivot_covers aliasName originRow columns = (\<forall>c \<in> set columns. originRow (aliasName c) \<noteq> None)"

definition row_matches :: "(Column \<Rightarrow> string) \<Rightarrow> pivotRows \<Rightarrow> Column list \<Rightarrow> row \<Rightarrow> bool" where
  "row_matches aliasName originRow columns r =
     (\<forall>i < length columns. compareQueryItem (originRow (aliasName (columns ! i))) (r ! i) = Inr True)"

text \<open>
  The loop of \<open>checkRow\<close> reaches position \<open>i\<close> when all earlier positions compare
  equal; it fails there when the row has no item at \<open>i\<close>, or a nil one, or the pivot map
  has none under the alias of column \<open>i\<close>.
\<close>

definition reaches_failure ::
  "(Column \<Rightarrow> string) \<Rightarrow> pivotRows \<Rightarrow> Column list \<Rightarrow> row \<Rightarrow> nat \<Rightarrow> bool" where
  "reaches_failure aliasName originRow columns r i =
     (i < length columns
      \<and> (\<forall>j < i. j < length r
             \<and> compareQueryItem (originRow (aliasName (columns ! j))) (r ! j) = Inr True)
      \<and> (length r \<le> i \<or> r ! i = None \<or> originRow (aliasName (columns ! i)) = None))"

section \<open>NoREC and TLP group comparison\<close>

text \<open>
  \<open>checkResultSet\<close>: the loop over the result sets returns at the first one whose row
  count differs from that of \<open>set[0]\<close>. The flag \<open>ignoreSort\<close> is a parameter the body never
  reads.
\<close>

fun checkResultSet_loop :: "nat \<Rightarrow> row list list \<Rightarrow> bool" where
  "checkResultSet_loop len [] = True"
| "checkResultSet_loop len (rows # rest) =
     (if length rows \<noteq> len then False else checkResultSet_loop len rest)"

definition checkResultSet :: "row list list \<Rightarrow> bool \<Rightarrow> bool" where
  "checkResultSet sets ignoreSort =
     (if length sets < 2 then True
      else checkResultSet_loop (length (sets ! 0)) sets)"

section \<open>The round orchestrator\<close>

text \<open>
  Go's \<open>int\<close> is a 64-bit two's complement integer on the platforms the fuzzer runs on:
  \<open>int64\<close> is the wrap-around of an arithmetic result, \<open>go_rem\<close> is Go's \<open>%\<close>, which
  truncates towards zero.
\<close>

definition int64 :: "int \<Rightarrow> int" where
  "int64 x = (x + 2 ^ 63) mod 2 ^ 64 - 2 ^ 63"

definition go_rem :: "int \<Rightarrow> int \<Rightarrow> int" where
  "go_rem a b = sgn a * (\<bar>a\<bar> mod \<bar>b\<bar>)"

text \<open>
  The two counters of the struct \<open>SQLancer\<close>. Its other fields (the generator with its
  table list, the configuration, the executor and the lock) are passed to the functions
  below as parameters where they are read.
\<close>

record SQLancer =
  batch :: int
  roundInBatch :: int

definition NewSQLancer :: SQLancer where
  "NewSQLancer = \<lparr>batch = 0, roundInBatch = 0\<rparr>"

text \<open>
  One pass through the \<open>default\<close> branch of the loop in \<open>run\<close>. \<open>refreshDatabase\<close> and
  \<open>progress\<close> read the counters and never assign them. \<open>run n\<close> is the loop cancelled (or
  stopped by a panic of a round) after \<open>n\<close> passes.
\<close>

definition run_iteration :: "SQLancer \<Rightarrow> SQLancer" where
  "run_iteration p =
     (let p1 = (if roundInBatch p = 0 then p\<lparr>batch := int64 (batch p + 1)\<rparr> else p)
      in p1\<lparr>roundInBatch := go_rem (int64 (roundInBatch p1 + 1)) 100\<rparr>)"

fun run :: "nat \<Rightarrow> SQLancer \<Rightarrow> SQLancer" where
  "run 0 p = p"
| "run (Suc n) p = run n (run_iteration p)"

text \<open>The fields of \<open>Config\<close> that \<open>progress\<close> reads.\<close>

record Config =
  ViewCount :: int
  EnableNoRECApproach :: bool
  EnablePQSApproach :: bool
  EnableTLPApproach :: bool
  Silent :: bool

datatype testingApproach = approachPQS | approachNoREC | approachTLP

text \<open>The slice \<open>approaches\<close> that \<open>progress\<close> builds, in the order of its appends.\<close>

definition progress_approaches :: "Config \<Rightarrow> int \<Rightarrow> testingApproach list" where
  "progress_approaches conf r =
     (if r < ViewCount conf then [approachPQS]
      else (if EnableNoRECApproach conf then [approachNoREC] else [])
         @ (if EnablePQSApproach conf then [approachPQS] else [])
         @ (if EnableTLPApproach conf then [approachTLP] else []))"

text \<open>
  Modelled from the spec: \<open>util.Rd\<close> is not part of the sources at hand; the spec uses
  \<open>Rd(n)\<close> as a uniform random integer in \<open>0..n-1\<close>, and Go's \<open>rand.Intn\<close> panics when
  \<open>n \<le> 0\<close>. The drawn value is the parameter \<open>rd\<close> of the functions that call \<open>Rd\<close>.

  \<open>approaches[Rd(len(approaches))]\<close>: the approach that a round runs.
\<close>

definition progress_approach :: "Config \<Rightarrow> int \<Rightarrow> nat \<Rightarrow> panic + testingApproach" where
  "progress_approach conf r rd =
     (let approaches = progress_approaches conf r in
      if length approaches = 0 then Inl IntnInvalidArgument
      else if rd < length approaches then Inr (approaches ! rd)
      else Inl IndexOutOfRange)"

definition enabled_approaches :: "Config \<Rightarrow> testingApproach set" where
  "enabled_approaches conf =
     {a. (a = approachNoREC \<and> EnableNoRECApproach conf)
       \<or> (a = approachPQS \<and> EnablePQSApproach conf)
       \<or> (a = approachTLP \<and> EnableTLPApproach conf)}"

section \<open>Random choice of tables\<close>

text \<open>
  \<open>randTables\<close>. The parameters are the outcomes of the random number generator:
  \<open>rd1\<close> is the value of \<open>Rd(len(p.Tables)-1)\<close>, \<open>rd4\<close> the value of \<open>Rd(4)\<close>, and
  \<open>shuffled\<close> is \<open>p.Tables\<close> after \<open>rand.Shuffle\<close>. The function returns the chosen tables
  and the (shuffled) table list it leaves in \<open>p.Tables\<close>; slicing beyond the list panics.
\<close>

definition randTables_count :: "nat \<Rightarrow> nat \<Rightarrow> nat \<Rightarrow> nat" where
  "randTables_count n rd1 rd4 =
     (if n > 1 then (let count = rd1 + 1 in if count > 4 then rd4 + 1 else count) else 1)"

definition randTables :: "Table list \<Rightarrow> nat \<Rightarrow> nat \<Rightarrow> Table list \<Rightarrow> panic + (Table list \<times> Table list)" where
  "randTables tables rd1 rd4 shuffled =
     (let count = randTables_count (length tables) rd1 rd4 in
      if count > length shuffled then Inl SliceBoundsOutOfRange
      else Inr (take count shuffled, shuffled))"

text \<open>
  What the random number generator can deliver: \<open>Rd(n)\<close> is below \<open>n\<close> (and is only
  called with \<open>n = len - 1\<close> when \<open>len > 1\<close>), and a shuffle is a permutation.
\<close>

definition rng_outcome :: "Table list \<Rightarrow> nat \<Rightarrow> nat \<Rightarrow> Table list \<Rightarrow> bool" where
  "rng_outcome tables rd1 rd4 shuffled =
     ((length tables > 1 \<longrightarrow> rd1 < length tables - 1) \<and> rd4 < 4 \<and> mset shuffled = mset tables)"

text \<open>A table with a name only, for the evaluation of the functions on concrete inputs.\<close>

definition base_table :: "string \<Rightarrow> Table" where
  "base_table n =
     \<lparr>Table_Name = n, Table_Columns = [], Table_Indexes = [], Table_Type = ''BASE TABLE''\<rparr>"

section \<open>Choosing the pivot row\<close>

text \<open>
  Modelled from the spec: the method \<open>Column.String\<close> of package \<open>types\<close> is not part of the
  sources at hand. The spec gives the key of a pivot row as \<open>table.column\<close>, case-folded and
  dotted; \<open>printPivotRows\<close> relies on the same shape when it splits a key at the dot.
\<close>

definition Column_String :: "(string \<Rightarrow> string) \<Rightarrow> Column \<Rightarrow> string" where
  "Column_String foldCase c = foldCase (Column_Table c) @ ''.'' @ foldCase (Column_Name c)"

text \<open>
  The key under which \<open>ChoosePivotedRow\<close> stores a cell: the column value
  \<open>Column{Table: i.Name, Name: CIStr(c.ValType.Name())}\<close>, rendered by \<open>String\<close>.
\<close>

definition pivot_key :: "(string \<Rightarrow> string) \<Rightarrow> CIStr \<Rightarrow> QueryItem \<Rightarrow> string" where
  "pivot_key foldCase tableName c =
     Column_String foldCase
       \<lparr>Column_Table = tableName, Column_Name = ValType c, Column_Type = [],
        Column_Length = 0, Column_Null = False\<rparr>"

definition pivot_sql :: "Table \<Rightarrow> string" where
  "pivot_sql i = ''SELECT * FROM '' @ Table_Name i @ '' ORDER BY RAND() LIMIT 1;''"

text \<open>
  The inner loop over the cells of the sampled row \<open>exeRes[0]\<close>; reading \<open>c.ValType\<close> of a
  nil cell is a nil dereference.
\<close>

fun store_row :: "(string \<Rightarrow> string) \<Rightarrow> CIStr \<Rightarrow> row \<Rightarrow> pivotRows \<Rightarrow> panic + pivotRows" where
  "store_row foldCase tableName [] result = Inr result"
| "store_row foldCase tableName (c # cs) result =
     (case c of
        None \<Rightarrow> Inl NilDereference
      | Some q \<Rightarrow>
          store_row foldCase tableName cs (result(pivot_key foldCase tableName q \<mapsto> q)))"

text \<open>
  The loop over \<open>usedTables\<close>. The parameter \<open>execSelect\<close> is the answer of the database
  to a statement: an error message or a result set. An error is turned into a panic.
\<close>

fun ChoosePivotedRow_loop ::
  "(string \<Rightarrow> string) \<Rightarrow> (string \<Rightarrow> string + row list) \<Rightarrow> Table list \<Rightarrow> pivotRows
     \<Rightarrow> Table list \<Rightarrow> panic + (pivotRows \<times> Table list)" where
  "ChoosePivotedRow_loop foldCase execSelect [] result reallyUsed = Inr (result, reallyUsed)"
| "ChoosePivotedRow_loop foldCase execSelect (i # rest) result reallyUsed =
     (case execSelect (pivot_sql i) of
        Inl err \<Rightarrow> Inl (PanicErr err)
      | Inr exeRes \<Rightarrow>
          if length exeRes > 0 then
            (case store_row foldCase (Table_Name i) (exeRes ! 0) result of
               Inl e \<Rightarrow> Inl e
             | Inr result' \<Rightarrow>
                 ChoosePivotedRow_loop foldCase execSelect rest result' (reallyUsed @ [i]))
          else ChoosePivotedRow_loop foldCase execSelect rest result reallyUsed)"

text \<open>
  \<open>ChoosePivotedRow\<close> returns the pivot map and the tables really used (its third result,
  the error, is always nil); the model returns the shuffled \<open>p.Tables\<close> as well.
\<close>

definition ChoosePivotedRow ::
  "(string \<Rightarrow> string) \<Rightarrow> (string \<Rightarrow> string + row list) \<Rightarrow> Table list \<Rightarrow> nat \<Rightarrow> nat
     \<Rightarrow> Table list \<Rightarrow> panic + (pivotRows \<times> Table list \<times> Table list)" where
  "ChoosePivotedRow foldCase execSelect tables rd1 rd4 shuffled =
     (case randTables tables rd1 rd4 shuffled of
        Inl e \<Rightarrow> Inl e
      | Inr (usedTables, tables') \<Rightarrow>
          (case ChoosePivotedRow_loop foldCase execSelect usedTables Map.empty [] of
             Inl e \<Rightarrow> Inl e
           | Inr (result, reallyUsed) \<Rightarrow> Inr (result, reallyUsed, tables')))"

text \<open>
  What the sampling statements deliver: \<open>select_ok\<close> holds when the statement for a table
  returns a result set whose first row, if there is one, has no nil cell; \<open>has_row\<close> when
  it returns at least one row; \<open>sampled_cells\<close> are the cells of that first row with their
  keys, in the order in which the loop stores them.
\<close>

definition select_ok :: "(string \<Rightarrow> string + row list) \<Rightarrow> Table \<Rightarrow> bool" where
  "select_ok execSelect t =
     (case execSelect (pivot_sql t) of
        Inl err \<Rightarrow> False
      | Inr exeRes \<Rightarrow> (case exeRes of [] \<Rightarrow> True | r # rs \<Rightarrow> None \<notin> set r))"

definition has_row :: "(string \<Rightarrow> string + row list) \<Rightarrow> Table \<Rightarrow> bool" where
  "has_row execSelect t =
     (case execSelect (pivot_sql t) of
        Inl err \<Rightarrow> False
      | Inr exeRes \<Rightarrow> exeRes \<noteq> [])"

definition row_cells :: "(string \<Rightarrow> string) \<Rightarrow> CIStr \<Rightarrow> row \<Rightarrow> (string \<times> QueryItem) list" where
  "row_cells foldCase tableName r =
     concat (map (\<lambda>c. case c of None \<Rightarrow> []
                          | Some q \<Rightarrow> [(pivot_key foldCase tableName q, q)]) r)"

definition sampled_cells ::
  "(string \<Rightarrow> string) \<Rightarrow> (string \<Rightarrow> string + row list) \<Rightarrow> Table
     \<Rightarrow> (string \<times> QueryItem) list" where
  "sampled_cells foldCase execSelect t =
     (case execSelect (pivot_sql t) of
        Inl err \<Rightarrow> []
      | Inr exeRes \<Rightarrow>
          (case exeRes of [] \<Rightarrow> [] | r # rs \<Rightarrow> row_cells foldCase (Table_Name t) r))"

definition pivot_entries ::
  "(string \<Rightarrow> string) \<Rightarrow> (string \<Rightarrow> string + row list) \<Rightarrow> Table list
     \<Rightarrow> (string \<times> QueryItem) list" where
  "pivot_entries foldCase execSelect ts = concat (map (sampled_cells foldCase execSelect) ts)"

text \<open>
  The answers of two small databases, for the evaluation on concrete inputs: one with a
  table \<open>T0\<close> and empty tables, one with two tables whose names differ in case only.
\<close>

definition example_select :: "string \<Rightarrow> string + row list" where
  "example_select stmt =
     (if stmt = ''SELECT * FROM T0 ORDER BY RAND() LIMIT 1;''
      then Inr [[Some \<lparr>Null = False, ValType = ''ID'', ValString = ''7''\<rparr>,
                 Some \<lparr>Null = True, ValType = ''c0'', ValString = []\<rparr>]]
      else Inr [])"

definition example_select_case :: "string \<Rightarrow> string + row list" where
  "example_select_case stmt =
     (if stmt = ''SELECT * FROM T0 ORDER BY RAND() LIMIT 1;''
      then Inr [[Some \<lparr>Null = False, ValType = ''id'', ValString = ''7''\<rparr>]]
      else if stmt = ''SELECT * FROM t0 ORDER BY RAND() LIMIT 1;''
      then Inr [[Some \<lparr>Null = False, ValType = ''id'', ValString = ''8''\<rparr>]]
      else Inr [])"

section \<open>A PQS round\<close>

text \<open>
  The calls that a round makes to its collaborators (connection, executor, known-bug
  filter, standard output and log), in the order in which it makes them.
\<close>

datatype event =
    Begin
  | Commit
  | ExecSelect string
  | IsKnownBug
  | PrintPivotRows
  | CreateViewBySelect string string nat "Column list"
  | LoadSchema
  | ReloadSchema
  | Log string

text \<open>
  What the collaborators answer during one round: the value of \<open>RdBool()\<close>, the errors
  of \<open>Begin\<close> and \<open>Commit\<close>, the answer to the generated statement, the verdict of the
  known-bug filter, a panic of \<open>printPivotRows\<close> or of \<open>LoadSchema\<close> (which panics on
  a fetch error), and the errors of \<open>CreateViewBySelect\<close> and \<open>ReloadSchema\<close>.
\<close>

record round_env =
  useExplicitTxn :: bool
  beginErr :: "string option"
  commitErr :: "string option"
  selectAnswer :: "string + row list"
  knownBug :: bool
  printPivotRowsPanic :: "panic option"
  createViewErr :: "string option"
  loadSchemaPanic :: "panic option"
  reloadSchemaErr :: "string option"

text \<open>What \<open>GenPQSSelectStmt\<close> returns and the round uses.\<close>

record pqs_stmt =
  stmt_selectSQL :: string
  stmt_columns :: "Column list"
  stmt_pivotRows :: pivotRows

text \<open>\<open>fmt.Sprintf("view_%d", p.roundInBatch)\<close>: the decimal rendering of an \<open>int\<close>.\<close>

fun nat_digits :: "nat \<Rightarrow> string" where
  "nat_digits n =
     (if n < 10 then [char_of (48 + n)]
      else nat_digits (n div 10) @ [char_of (48 + n mod 10)])"

declare nat_digits.simps [simp del]

definition Itoa :: "int \<Rightarrow> string" where
  "Itoa i = (if i < 0 then CHR ''-'' # nat_digits (nat (- i)) else nat_digits (nat i))"

definition view_name :: "int \<Rightarrow> string" where
  "view_name r = ''view_'' @ Itoa r"

text \<open>
  The closure that \<open>progress\<close> passes to \<open>withTxn\<close> in the PQS case. It returns the calls
  made and either a panic or the error value returned (\<open>None\<close> is nil).
\<close>

definition pqs_views :: "Config \<Rightarrow> int \<Rightarrow> pqs_stmt \<Rightarrow> round_env \<Rightarrow> row list \<Rightarrow> event list" where
  "pqs_views conf r stmt env resultRows =
     (if r \<le> ViewCount conf
      then CreateViewBySelect (view_name r) (stmt_selectSQL stmt) (length resultRows) (stmt_columns stmt)
             # (case createViewErr env of Some err \<Rightarrow> [Log ''create view failed''] | None \<Rightarrow> [])
      else [])"

definition pqs_action ::
  "(Column \<Rightarrow> string) \<Rightarrow> Config \<Rightarrow> int \<Rightarrow> pqs_stmt \<Rightarrow> round_env
     \<Rightarrow> event list \<times> (panic + string option)" where
  "pqs_action aliasName conf r stmt env =
     (case selectAnswer env of
        Inl err \<Rightarrow> ([ExecSelect (stmt_selectSQL stmt), Log ''execSelect failed''], Inr (Some err))
      | Inr resultRows \<Rightarrow>
          (case verifyPQS aliasName (stmt_pivotRows stmt) (stmt_columns stmt) resultRows of
             Inl e \<Rightarrow> ([ExecSelect (stmt_selectSQL stmt)], Inl e)
           | Inr correct \<Rightarrow>
               if \<not> correct then
                 if knownBug env then ([ExecSelect (stmt_selectSQL stmt), IsKnownBug], Inr None)
                 else
                   (case printPivotRowsPanic env of
                      Some e \<Rightarrow> ([ExecSelect (stmt_selectSQL stmt), IsKnownBug, PrintPivotRows], Inl e)
                    | None \<Rightarrow>
                        if r < ViewCount conf \<or> Silent conf
                        then ([ExecSelect (stmt_selectSQL stmt), IsKnownBug, PrintPivotRows],
                              Inl (PanicMsg ''data verified failed''))
                        else ([ExecSelect (stmt_selectSQL stmt), IsKnownBug, PrintPivotRows], Inr None))
               else if r = ViewCount conf then
                 (case loadSchemaPanic env of
                    Some e \<Rightarrow>
                      (ExecSelect (stmt_selectSQL stmt) # pqs_views conf r stmt env resultRows
                         @ [LoadSchema], Inl e)
                  | None \<Rightarrow>
                      (case reloadSchemaErr env of
                         Some err \<Rightarrow>
                           (ExecSelect (stmt_selectSQL stmt) # pqs_views conf r stmt env resultRows
                              @ [LoadSchema, ReloadSchema], Inl (PanicErr err))
                       | None \<Rightarrow>
                           (ExecSelect (stmt_selectSQL stmt) # pqs_views conf r stmt env resultRows
                              @ [LoadSchema, ReloadSchema, Log ''check finished''], Inr None)))
               else
                 (ExecSelect (stmt_selectSQL stmt) # pqs_views conf r stmt env resultRows
                    @ [Log ''check finished''], Inr None)))"

text \<open>
  \<open>withTxn\<close>: with an explicit transaction a failing \<open>Begin\<close> returns its error and the
  action does not run; otherwise the action runs and the deferred \<open>Commit\<close> follows it,
  also when the action panics. A fatal log call ends the process at once, without the
  deferred call. The result is that of the action.
\<close>

definition withTxn ::
  "round_env \<Rightarrow> event list \<times> (panic + string option) \<Rightarrow> event list \<times> (panic + string option)" where
  "withTxn env action =
     (if useExplicitTxn env then
        (case beginErr env of
           Some err \<Rightarrow> ([Begin, Log ''begin txn failed''], Inr (Some err))
         | None \<Rightarrow>
             ([Begin, Log ''begin txn success''] @ fst action
                @ (case snd action of
                     Inl (Fatal m) \<Rightarrow> []
                   | _ \<Rightarrow>
                       (case commitErr env of
                          Some err \<Rightarrow> [Commit, Log ''commit txn failed'']
                        | None \<Rightarrow> [Commit, Log ''commit txn success''])),
              snd action))
      else action)"

text \<open>The PQS case of \<open>progress\<close>, from the generated statement on.\<close>

definition progress_PQS ::
  "(Column \<Rightarrow> string) \<Rightarrow> Config \<Rightarrow> int \<Rightarrow> pqs_stmt \<Rightarrow> round_env
     \<Rightarrow> event list \<times> (panic + string option)" where
  "progress_PQS aliasName conf r stmt env = withTxn env (pqs_action aliasName conf r stmt env)"

section \<open>A NoREC or TLP round\<close>

text \<open>
  A node of a group that the transformer returns, with what happens to it: \<open>BufferOut\<close>
  fails, or it restores the statement, which the database answers.
\<close>

datatype norec_node = RestoreError string | Restored string "string + row list"

text \<open>
  The loop over the nodes of one group: the calls made, and the result sets collected or
  the error of the select at which the closure returns.
\<close>

fun norec_nodes :: "norec_node list \<Rightarrow> event list \<times> (string + row list list)" where
  "norec_nodes [] = ([], Inr [])"
| "norec_nodes (RestoreError err # nodes) =
     (Log ''err on restoring'' # fst (norec_nodes nodes), snd (norec_nodes nodes))"
| "norec_nodes (Restored sql answer # nodes) =
     (case answer of
        Inl err \<Rightarrow> ([ExecSelect sql, Log sql, Log ''execSelect failed''], Inl err)
      | Inr resultRows \<Rightarrow>
          (ExecSelect sql # Log sql # fst (norec_nodes nodes),
           (case snd (norec_nodes nodes) of
              Inl err \<Rightarrow> Inl err
            | Inr resultSet \<Rightarrow> Inr (resultRows # resultSet))))"

text \<open>
  The verdict on one group: a mismatch is logged, and it is fatal unless \<open>Silent\<close> is set.
\<close>

definition norec_group :: "Config \<Rightarrow> row list list \<Rightarrow> event list \<times> (panic + unit)" where
  "norec_group conf resultSet =
     (if \<not> checkResultSet resultSet True then
        if \<not> Silent conf then ([Log ''last round SQLs''], Inl (Fatal ''data verified failed''))
        else ([Log ''last round SQLs'', Log ''check finished''], Inr ())
      else ([Log ''check finished''], Inr ()))"

text \<open>
  The closure that \<open>progress\<close> passes to \<open>withTxn\<close> in the NoREC and TLP case: the loop over
  the groups. A group of fewer than two nodes is skipped with a warning.
\<close>

fun norec_action :: "Config \<Rightarrow> norec_node list list \<Rightarrow> event list \<times> (panic + string option)" where
  "norec_action conf [] = ([], Inr None)"
| "norec_action conf (nodesArr # nodesGroup) =
     (if length nodesArr < 2
      then (Log ''no enough sqls were generated'' # fst (norec_action conf nodesGroup),
            snd (norec_action conf nodesGroup))
      else
        (case snd (norec_nodes nodesArr) of
           Inl err \<Rightarrow> (fst (norec_nodes nodesArr), Inr (Some err))
         | Inr resultSet \<Rightarrow>
             (case snd (norec_group conf resultSet) of
                Inl e \<Rightarrow> (fst (norec_nodes nodesArr) @ fst (norec_group conf resultSet), Inl e)
              | Inr u \<Rightarrow>
                  (fst (norec_nodes nodesArr) @ fst (norec_group conf resultSet)
                     @ fst (norec_action conf nodesGroup),
                   snd (norec_action conf nodesGroup)))))"

section \<open>A round\<close>

text \<open>
  \<open>progress\<close>, from the generated statements on: the approach drawn decides which closure
  runs under \<open>withTxn\<close>. Before that, the PQS case samples the pivot row and both cases
  call the generator; the calls they make to the database are selects.
\<close>

definition progress ::
  "(Column \<Rightarrow> string) \<Rightarrow> Config \<Rightarrow> int \<Rightarrow> nat \<Rightarrow> pqs_stmt \<Rightarrow> norec_node list list \<Rightarrow> round_env
     \<Rightarrow> event list \<times> (panic + string option)" where
  "progress aliasName conf r rd stmt nodesGroup env =
     (case progress_approach conf r rd of
        Inl e \<Rightarrow> ([], Inl e)
      | Inr approach \<Rightarrow>
          (case approach of
             approachPQS \<Rightarrow> progress_PQS aliasName conf r stmt env
           | approachNoREC \<Rightarrow> withTxn env (norec_action conf nodesGroup)
           | approachTLP \<Rightarrow> withTxn env (norec_action conf nodesGroup)))"

text \<open>
  The action of a round ran when the transaction, if any, could be begun; the calls that
  change or reload the schema are the view creation and the two schema loads.
\<close>

definition action_runs :: "round_env \<Rightarrow> bool" where
  "action_runs env = (\<not> useExplicitTxn env \<or> beginErr env = None)"

fun is_schema_call :: "event \<Rightarrow> bool" where
  "is_schema_call (CreateViewBySelect n s c cs) = True"
| "is_schema_call LoadSchema = True"
| "is_schema_call ReloadSchema = True"
| "is_schema_call e = False"

definition schema_calls :: "event list \<Rightarrow> event list" where
  "schema_calls evs = filter is_schema_call evs"

text \<open>A round environment and a generated statement, for the evaluation on concrete inputs.\<close>

definition example_env :: "row list \<Rightarrow> round_env" where
  "example_env rows =
     \<lparr>useExplicitTxn = True, beginErr = None, commitErr = None, selectAnswer = Inr rows,
      knownBug = False, printPivotRowsPanic = None, createViewErr = None,
      loadSchemaPanic = None, reloadSchemaErr = None\<rparr>"

definition example_stmt :: pqs_stmt where
  "example_stmt =
     \<lparr>stmt_selectSQL = ''SELECT t0.id FROM t0 WHERE t0.id = 7'',
      stmt_columns = [\<lparr>Column_Table = ''t0'', Column_Name = ''t0.id'', Column_Type = ''int'',
                  Column_Length = 11, Column_Null = False\<rparr>],
      stmt_pivotRows = [''t0.id'' \<mapsto> \<lparr>Null = False, ValType = ''id'', ValString = ''7''\<rparr>]\<rparr>"

definition example_nodes :: "norec_node list list" where
  "example_nodes =
     [[Restored ''SELECT COUNT(*) FROM t0 WHERE t0.id > 3''
         (Inr [[Some \<lparr>Null = False, ValType = ''COUNT(*)'', ValString = ''1''\<rparr>]]),
       Restored ''SELECT SUM(t0.id > 3) FROM t0''
         (Inr [[Some \<lparr>Null = False, ValType = ''SUM(t0.id > 3)'', ValString = ''1''\<rparr>]])]]"

section \<open>The schema cache of the executor\<close>

text \<open>
  A record of \<open>FetchSchema\<close> is a \<open>[6]string\<close>: database, table, table type, column,
  column type and nullability. The cache \<open>e.tables\<close> is a \<open>map[string]*types.Table\<close>,
  keyed by the table name as it was fetched.

  The method \<open>Column.ParseType\<close> of package \<open>types\<close> is not part of the sources at hand;
  the parameter \<open>parseType\<close> gives the type descriptor (type and width) that it writes into
  the column for a fetched column type.
\<close>

type_synonym schema_record = "string \<times> string \<times> string \<times> string \<times> string \<times> string"
type_synonym tables = "string \<rightharpoonup> Table"

text \<open>
  The inner loop of \<open>loadSchema\<close> over the columns of the table: at the first column whose
  name equals the fetched one up to case, type and nullability are overwritten and the
  loop continues with the next record (\<open>Some\<close>); \<open>None\<close> when no column matches.
\<close>

fun update_column :: "(string \<Rightarrow> string) \<Rightarrow> Column list \<Rightarrow> string \<Rightarrow> string \<Rightarrow> string \<Rightarrow> Column list option" where
  "update_column foldCase [] columnName columnType columnNull = None"
| "update_column foldCase (column # rest) columnName columnType columnNull =
     (if EqString foldCase (Column_Name column) columnName
      then Some (column\<lparr>Column_Type := columnType,
                        Column_Null := EqualFold foldCase columnNull ''Yes''\<rparr> # rest)
      else map_option ((#) column) (update_column foldCase rest columnName columnType columnNull))"

definition new_column ::
  "(string \<Rightarrow> string) \<Rightarrow> (string \<Rightarrow> string \<times> int) \<Rightarrow> string \<Rightarrow> string \<Rightarrow> string \<Rightarrow> string \<Rightarrow> Column" where
  "new_column foldCase parseType tableName columnName columnType columnNull =
     \<lparr>Column_Table = tableName, Column_Name = columnName,
      Column_Type = fst (parseType columnType), Column_Length = snd (parseType columnType),
      Column_Null = EqualFold foldCase columnNull ''Yes''\<rparr>"

text \<open>The body of the loop of \<open>loadSchema\<close> for one record.\<close>

definition loadSchema_record ::
  "(string \<Rightarrow> string) \<Rightarrow> (string \<Rightarrow> string \<times> int) \<Rightarrow> string \<Rightarrow> (string \<rightharpoonup> CIStr list) \<Rightarrow> tables \<Rightarrow> schema_record
     \<Rightarrow> tables" where
  "loadSchema_record foldCase parseType db indexes e_tables rec =
     (case rec of (dbname, tableName, tableType, columnName, columnType, columnNull) \<Rightarrow>
        if dbname \<noteq> db then e_tables
        else
          let index = (case indexes tableName of Some ix \<Rightarrow> ix | None \<Rightarrow> []);
              t = (case e_tables tableName of
                     Some t \<Rightarrow> t
                   | None \<Rightarrow> \<lparr>Table_Name = tableName, Table_Columns = [],
                              Table_Indexes = index, Table_Type = tableType\<rparr>)
          in case update_column foldCase (Table_Columns t) columnName columnType columnNull of
               Some cols \<Rightarrow> e_tables(tableName \<mapsto> t\<lparr>Table_Columns := cols\<rparr>)
             | None \<Rightarrow>
                 e_tables(tableName \<mapsto> t\<lparr>Table_Columns := Table_Columns t
                    @ [new_column foldCase parseType tableName columnName columnType columnNull]\<rparr>))"

fun loadSchema_loop ::
  "(string \<Rightarrow> string) \<Rightarrow> (string \<Rightarrow> string \<times> int) \<Rightarrow> string \<Rightarrow> (string \<rightharpoonup> CIStr list) \<Rightarrow> schema_record list
     \<Rightarrow> tables \<Rightarrow> tables" where
  "loadSchema_loop foldCase parseType db indexes [] e_tables = e_tables"
| "loadSchema_loop foldCase parseType db indexes (rec # records) e_tables =
     loadSchema_loop foldCase parseType db indexes records
       (loadSchema_record foldCase parseType db indexes e_tables rec)"

text \<open>\<open>loadSchema\<close> starts from an empty cache.\<close>

definition loadSchema ::
  "(string \<Rightarrow> string) \<Rightarrow> (string \<Rightarrow> string \<times> int) \<Rightarrow> string \<Rightarrow> schema_record list \<Rightarrow> (string \<rightharpoonup> CIStr list)
     \<Rightarrow> tables" where
  "loadSchema foldCase parseType db records indexes =
     loadSchema_loop foldCase parseType db indexes records Map.empty"

text \<open>
  \<open>reloadSchema\<close>: the loop that fetches the indexes tests the map under the table type
  \<open>col[2]\<close> and stores under the table name \<open>col[1]\<close>, as the source does. The parameters
  \<open>fetchSchema\<close> and \<open>fetchIndexes\<close> are the answers of the connection. The function
  returns the error (\<open>None\<close> is nil) and the cache it leaves.
\<close>

fun reloadSchema_indexes ::
  "(string \<Rightarrow> string + string list) \<Rightarrow> schema_record list \<Rightarrow> (string \<rightharpoonup> CIStr list)
     \<Rightarrow> string + (string \<rightharpoonup> CIStr list)" where
  "reloadSchema_indexes fetchIndexes [] indexes = Inr indexes"
| "reloadSchema_indexes fetchIndexes (col # schema) indexes =
     (case col of (c0, c1, c2, c3, c4, c5) \<Rightarrow>
        if indexes c2 \<noteq> None then reloadSchema_indexes fetchIndexes schema indexes
        else
          (case fetchIndexes c1 of
             Inl err \<Rightarrow> Inl err
           | Inr index \<Rightarrow> reloadSchema_indexes fetchIndexes schema (indexes(c1 \<mapsto> index))))"

definition reloadSchema ::
  "(string \<Rightarrow> string) \<Rightarrow> (string \<Rightarrow> string \<times> int) \<Rightarrow> string \<Rightarrow> string + schema_record list
     \<Rightarrow> (string \<Rightarrow> string + string list) \<Rightarrow> tables \<Rightarrow> string option \<times> tables" where
  "reloadSchema foldCase parseType db fetchSchema fetchIndexes e_tables =
     (case fetchSchema of
        Inl err \<Rightarrow> (Some err, e_tables)
      | Inr schema \<Rightarrow>
          (case reloadSchema_indexes fetchIndexes schema Map.empty of
             Inl err \<Rightarrow> (Some err, e_tables)
           | Inr indexes \<Rightarrow> (None, loadSchema foldCase parseType db schema indexes)))"

text \<open>The column identifiers of a table are pairwise distinct modulo case.\<close>

definition columns_unique :: "(string \<Rightarrow> string) \<Rightarrow> Table \<Rightarrow> bool" where
  "columns_unique foldCase t =
     (\<forall>i j. i < length (Table_Columns t) \<and> j < length (Table_Columns t) \<and> i \<noteq> j \<longrightarrow>
        \<not> EqString foldCase (Column_Name (Table_Columns t ! i)) (Column_Name (Table_Columns t ! j)))"

definition cache_unique :: "(string \<Rightarrow> string) \<Rightarrow> tables \<Rightarrow> bool" where
  "cache_unique foldCase e_tables =
     (\<forall>tableName t. e_tables tableName = Some t \<longrightarrow> columns_unique foldCase t)"

text \<open>
  A type parser that cuts the column type at the opening parenthesis, and the records of
  a small catalogue, for the evaluation on concrete inputs.
\<close>

definition example_parseType :: "string \<Rightarrow> string \<times> int" where
  "example_parseType s = (takeWhile (\<lambda>c. c \<noteq> CHR ''('') s, 0)"

definition example_records :: "schema_record list" where
  "example_records =
     [(''test'', ''t0'', ''BASE TABLE'', ''id'', ''int(11)'', ''NO''),
      (''test'', ''t0'', ''BASE TABLE'', ''c0'', ''varchar(20)'', ''YES''),
      (''mysql'', ''user'', ''BASE TABLE'', ''Host'', ''char(60)'', ''NO''),
      (''test'', ''t0'', ''BASE TABLE'', ''ID'', ''bigint(20)'', ''YES'')]"

definition example_t0 :: Table where
  "example_t0 =
     \<lparr>Table_Name = ''t0'',
      Table_Columns =
        [\<lparr>Column_Table = ''t0'', Column_Name = ''id'', Column_Type = ''int'',
          Column_Length = 0, Column_Null = False\<rparr>,
         \<lparr>Column_Table = ''t0'', Column_Name = ''c0'', Column_Type = ''varchar'',
          Column_Length = 0, Column_Null = True\<rparr>],
      Table_Indexes = [], Table_Type = ''BASE TABLE''\<rparr>"

definition example_t0_updated :: Table where
  "example_t0_updated =
     \<lparr>Table_Name = ''t0'',
      Table_Columns =
        [\<lparr>Column_Table = ''t0'', Column_Name = ''id'', Column_Type = ''bigint(20)'',
          Column_Length = 0, Column_Null = True\<rparr>,
         \<lparr>Column_Table = ''t0'', Column_Name = ''c0'', Column_Type = ''varchar'',
          Column_Length = 0, Column_Null = True\<rparr>],
      Table_Indexes = [], Table_Type = ''BASE TABLE''\<rparr>"

text \<open>The records of a catalogue with two tables whose names differ in case only.\<close>

definition example_records_case :: "schema_record list" where
  "example_records_case =
     [(''test'', ''t1'', ''BASE TABLE'', ''A'', ''int(11)'', ''NO''),
      (''test'', ''T1'', ''BASE TABLE'', ''a'', ''bigint(20)'', ''YES'')]"

section \<open>Properties of the comparison of query items\<close>

lemma compareQueryItem_Some:
  "compareQueryItem (Some a) (Some b) =
     Inr (Null a = Null b \<and> (Null a \<or> ValString a = ValString b))"
  by (auto simp: compareQueryItem_def)

text \<open>
  C9: on query items (non-nil pointers) \<open>compareQueryItem\<close> always returns a verdict; the
  verdict is reflexive, symmetric and transitive, and it is true precisely when both items
  are null, or both are non-null and their string renderings are equal.
\<close>

theorem compareQueryItem_equivalence:
  "compareQueryItem (Some q) (Some q) = Inr True
   \<and> compareQueryItem (Some a) (Some b) = compareQueryItem (Some b) (Some a)
   \<and> (compareQueryItem (Some a) (Some b) = Inr True \<longrightarrow>
        compareQueryItem (Some b) (Some c) = Inr True \<longrightarrow>
        compareQueryItem (Some a) (Some c) = Inr True)
   \<and> compareQueryItem (Some a) (Some b) =
        Inr ((Null a \<and> Null b) \<or> (\<not> Null a \<and> \<not> Null b \<and> ValString a = ValString b))"
  by (auto simp: compareQueryItem_Some)

theorem compareQueryItem_equivalence_witness:
  "compareQueryItem (Some \<lparr>Null = False, ValType = ''INT'', ValString = ''1''\<rparr>)
                    (Some \<lparr>Null = False, ValType = ''BIGINT'', ValString = ''1''\<rparr>) = Inr True
   \<and> compareQueryItem (Some \<lparr>Null = False, ValType = ''BIGINT'', ValString = ''1''\<rparr>)
                      (Some \<lparr>Null = False, ValType = ''VARCHAR'', ValString = ''1''\<rparr>) = Inr True
   \<and> compareQueryItem (Some \<lparr>Null = False, ValType = ''INT'', ValString = ''1''\<rparr>)
                      (Some \<lparr>Null = False, ValType = ''VARCHAR'', ValString = ''1''\<rparr>) = Inr True
   \<and> compareQueryItem (Some \<lparr>Null = True, ValType = ''INT'', ValString = ''1''\<rparr>)
                      (Some \<lparr>Null = True, ValType = ''INT'', ValString = ''1''\<rparr>) = Inr True"
proof -
  let ?q = "\<lparr>Null = True, ValType = ''INT'', ValString = ''1''\<rparr>"
  let ?a = "\<lparr>Null = False, ValType = ''INT'', ValString = ''1''\<rparr>"
  let ?b = "\<lparr>Null = False, ValType = ''BIGINT'', ValString = ''1''\<rparr>"
  let ?c = "\<lparr>Null = False, ValType = ''VARCHAR'', ValString = ''1''\<rparr>"
  have ab: "compareQueryItem (Some ?a) (Some ?b) = Inr True"
    by (simp add: compareQueryItem_def)
  have bc: "compareQueryItem (Some ?b) (Some ?c) = Inr True"
    by (simp add: compareQueryItem_def)
  note inst = compareQueryItem_equivalence [of ?q ?a ?b ?c]
  from inst have qq: "compareQueryItem (Some ?q) (Some ?q) = Inr True"
    by (rule conjunct1)
  note trans = inst [THEN conjunct2, THEN conjunct2, THEN conjunct1]
  from trans [THEN mp, OF ab, THEN mp, OF bc]
  have ac: "compareQueryItem (Some ?a) (Some ?c) = Inr True" .
  from ab bc ac qq show ?thesis
    by (simp only: simp_thms)
qed

section \<open>Properties of PQS row verification\<close>

lemma row_matches_Nil: "row_matches aliasName originRow [] r = True"
  by (simp add: row_matches_def)

lemma row_matches_Cons:
  "row_matches aliasName originRow (c # cs) (r # rs) =
     (compareQueryItem (originRow (aliasName c)) r = Inr True \<and> row_matches aliasName originRow cs rs)"
  by (auto simp: row_matches_def less_Suc_eq_0_disj)

lemma row_covers_Cons:
  "row_covers (c # cs) (r # rs) = (r \<noteq> None \<and> row_covers cs rs)"
  by (auto simp: row_covers_def less_Suc_eq_0_disj)

lemma row_covers_Nil: "row_covers (c # cs) [] = False"
  by (simp add: row_covers_def)

lemma row_covers_no_columns: "row_covers [] r = True"
  by (simp add: row_covers_def)

lemma compareQueryItem_total:
  "l \<noteq> None \<Longrightarrow> r \<noteq> None \<Longrightarrow> \<exists>b. compareQueryItem l r = Inr b"
  by (auto simp: compareQueryItem_Some)

lemma checkRow_covered:
  "pivot_covers aliasName originRow columns \<Longrightarrow> row_covers columns r \<Longrightarrow>
     checkRow aliasName originRow columns r = Inr (row_matches aliasName originRow columns r)"
proof (induction aliasName originRow columns r rule: checkRow.induct)
  case (1 aliasName originRow resultSet)
  then show ?case by (simp add: row_matches_Nil)
next
  case (2 aliasName originRow c cs)
  then show ?case by (simp add: row_covers_Nil)
next
  case (3 aliasName originRow c cs r rs)
  from "3.prems" have pc: "originRow (aliasName c) \<noteq> None"
    and pcs: "pivot_covers aliasName originRow cs"
    by (simp_all add: pivot_covers_def)
  from "3.prems" have rc: "r \<noteq> None" and rcs: "row_covers cs rs"
    by (simp_all add: row_covers_Cons)
  from compareQueryItem_total [OF pc rc]
  obtain b where b: "compareQueryItem (originRow (aliasName c)) r = Inr b"
    by blast
  show ?case
  proof (cases b)
    case True
    with b "3.IH" [OF b _ pcs rcs] show ?thesis by (simp add: row_matches_Cons)
  next
    case False
    with b show ?thesis by (simp add: row_matches_Cons)
  qed
qed

lemma verifyPQS_covered:
  "pivot_covers aliasName originRow columns \<Longrightarrow> \<forall>r \<in> set resultSets. row_covers columns r \<Longrightarrow>
     verifyPQS aliasName originRow columns resultSets =
       Inr (\<exists>r \<in> set resultSets. row_matches aliasName originRow columns r)"
  by (induction resultSets) (auto simp: checkRow_covered)

text \<open>
  The accesses are not guarded by the code itself: a row that is too short, a missing
  pivot entry or a nil cell at the first column makes \<open>checkRow\<close> panic.
\<close>

lemma checkRow_unguarded:
  "checkRow aliasName originRow (c # cs) [] = Inl IndexOutOfRange"
  "originRow (aliasName c) = None \<Longrightarrow>
     checkRow aliasName originRow (c # cs) (r # rs) = Inl NilDereference"
  "checkRow aliasName originRow (c # cs) (None # rs) = Inl NilDereference"
  by (auto simp: compareQueryItem_def split: option.splits)

text \<open>
  More generally, the first position at which the precondition fails makes \<open>checkRow\<close>
  panic as soon as the loop reaches it, that is when all earlier positions compare equal.
\<close>

lemma checkRow_panics_at:
  assumes "i < length columns"
    and "\<forall>j < i. j < length r
           \<and> compareQueryItem (originRow (aliasName (columns ! j))) (r ! j) = Inr True"
    and "length r \<le> i \<or> r ! i = None \<or> originRow (aliasName (columns ! i)) = None"
  shows "\<exists>e. checkRow aliasName originRow columns r = Inl e"
  using assms
proof (induction aliasName originRow columns r arbitrary: i rule: checkRow.induct)
  case (1 aliasName originRow resultSet)
  then show ?case by simp
next
  case (2 aliasName originRow c cs)
  then show ?case by simp
next
  case (3 aliasName originRow c cs x xs)
  show ?case
  proof (cases i)
    case 0
    with "3.prems"(3) have "x = None \<or> originRow (aliasName c) = None"
      by simp
    then have "compareQueryItem (originRow (aliasName c)) x = Inl NilDereference"
      by (auto simp: compareQueryItem_def split: option.splits)
    then show ?thesis by simp
  next
    case (Suc k)
    with "3.prems"(2) have b: "compareQueryItem (originRow (aliasName c)) x = Inr True"
      by auto
    from Suc "3.prems"(1) have k: "k < length cs"
      by simp
    have m: "\<forall>j < k. j < length xs
           \<and> compareQueryItem (originRow (aliasName (cs ! j))) (xs ! j) = Inr True"
    proof (intro allI impI)
      fix j assume "j < k"
      then have "Suc j < i"
        by (simp add: Suc)
      with "3.prems"(2) show "j < length xs
           \<and> compareQueryItem (originRow (aliasName (cs ! j))) (xs ! j) = Inr True"
        by fastforce
    qed
    from Suc "3.prems"(3)
    have v: "length xs \<le> k \<or> xs ! k = None \<or> originRow (aliasName (cs ! k)) = None"
      by simp
    from "3.IH" [OF b _ k m v] b show ?thesis
      by simp
  qed
qed

lemma reaches_failure_Nil: "reaches_failure aliasName originRow (c # cs) [] i = (i = 0)"
  by (auto simp: reaches_failure_def)

lemma reaches_failure_0:
  "reaches_failure aliasName originRow (c # cs) (x # xs) 0 =
     (x = None \<or> originRow (aliasName c) = None)"
  by (simp add: reaches_failure_def)

lemma reaches_failure_Suc:
  "reaches_failure aliasName originRow (c # cs) (x # xs) (Suc k) =
     (compareQueryItem (originRow (aliasName c)) x = Inr True
      \<and> reaches_failure aliasName originRow cs xs k)"
  by (auto simp: reaches_failure_def All_less_Suc2)

lemma checkRow_panic_reaches:
  "checkRow aliasName originRow columns r = Inl e \<Longrightarrow>
     \<exists>i. reaches_failure aliasName originRow columns r i"
proof (induction aliasName originRow columns r rule: checkRow.induct)
  case (1 aliasName originRow resultSet)
  then show ?case by simp
next
  case (2 aliasName originRow c cs)
  have "reaches_failure aliasName originRow (c # cs) [] 0"
    by (simp add: reaches_failure_Nil)
  then show ?case ..
next
  case (3 aliasName originRow c cs x xs)
  show ?case
  proof (cases "compareQueryItem (originRow (aliasName c)) x")
    case (Inl p)
    then have "x = None \<or> originRow (aliasName c) = None"
      by (auto simp: compareQueryItem_def split: option.splits if_splits)
    then have "reaches_failure aliasName originRow (c # cs) (x # xs) 0"
      by (simp add: reaches_failure_0)
    then show ?thesis ..
  next
    case (Inr b)
    with "3.prems" have b: "b" and rest: "checkRow aliasName originRow cs xs = Inl e"
      by (auto split: if_splits)
    from "3.IH" [OF Inr _ rest] b obtain k where "reaches_failure aliasName originRow cs xs k"
      by auto
    with Inr b have "reaches_failure aliasName originRow (c # cs) (x # xs) (Suc k)"
      by (simp add: reaches_failure_Suc)
    then show ?thesis ..
  qed
qed

lemma checkRow_panics_iff:
  "(\<exists>e. checkRow aliasName originRow columns r = Inl e) =
     (\<exists>i. reaches_failure aliasName originRow columns r i)"
proof
  assume "\<exists>e. checkRow aliasName originRow columns r = Inl e"
  then show "\<exists>i. reaches_failure aliasName originRow columns r i"
    by (auto dest: checkRow_panic_reaches)
next
  assume "\<exists>i. reaches_failure aliasName originRow columns r i"
  then obtain i where "reaches_failure aliasName originRow columns r i" ..
  then show "\<exists>e. checkRow aliasName originRow columns r = Inl e"
    unfolding reaches_failure_def by (intro checkRow_panics_at [of i]) simp_all
qed

text \<open>
  \<open>verifyPQS\<close> returns at the first row that matches: it panics exactly when \<open>checkRow\<close>
  panics on a row before which every row was rejected.
\<close>

lemma verifyPQS_panics_iff:
  "(\<exists>e. verifyPQS aliasName originRow columns resultSets = Inl e) =
     (\<exists>k < length resultSets.
        (\<exists>e. checkRow aliasName originRow columns (resultSets ! k) = Inl e)
        \<and> (\<forall>j < k. checkRow aliasName originRow columns (resultSets ! j) = Inr False))"
proof (induction resultSets)
  case Nil
  then show ?case by simp
next
  case (Cons row rest)
  show ?case
  proof (cases "checkRow aliasName originRow columns row")
    case (Inl p)
    have "0 < length (row # rest)
        \<and> (\<exists>e. checkRow aliasName originRow columns ((row # rest) ! 0) = Inl e)
        \<and> (\<forall>j < 0. checkRow aliasName originRow columns ((row # rest) ! j) = Inr False)"
      by (simp add: Inl)
    then have "\<exists>k < length (row # rest).
        (\<exists>e. checkRow aliasName originRow columns ((row # rest) ! k) = Inl e)
        \<and> (\<forall>j < k. checkRow aliasName originRow columns ((row # rest) ! j) = Inr False)"
      by blast
    then show ?thesis
      by (simp add: Inl)
  next
    case (Inr b)
    show ?thesis
    proof (cases b)
      case True
      have "\<not> (\<exists>k < length (row # rest).
        (\<exists>e. checkRow aliasName originRow columns ((row # rest) ! k) = Inl e)
        \<and> (\<forall>j < k. checkRow aliasName originRow columns ((row # rest) ! j) = Inr False))"
      proof
        assume "\<exists>k < length (row # rest).
          (\<exists>e. checkRow aliasName originRow columns ((row # rest) ! k) = Inl e)
          \<and> (\<forall>j < k. checkRow aliasName originRow columns ((row # rest) ! j) = Inr False)"
        then obtain k where k: "\<exists>e. checkRow aliasName originRow columns ((row # rest) ! k) = Inl e"
          and j: "\<forall>j < k. checkRow aliasName originRow columns ((row # rest) ! j) = Inr False"
          by blast
        show False
        proof (cases k)
          case 0
          with k Inr show False by simp
        next
          case (Suc n)
          with j have "checkRow aliasName originRow columns ((row # rest) ! 0) = Inr False"
            by blast
          with Inr True show False by simp
        qed
      qed
      then show ?thesis
        by (simp add: Inr True)
    next
      case False
      have "(\<exists>k < length (row # rest).
          (\<exists>e. checkRow aliasName originRow columns ((row # rest) ! k) = Inl e)
          \<and> (\<forall>j < k. checkRow aliasName originRow columns ((row # rest) ! j) = Inr False))
        = (\<exists>k < length rest.
          (\<exists>e. checkRow aliasName originRow columns (rest ! k) = Inl e)
          \<and> (\<forall>j < k. checkRow aliasName originRow columns (rest ! j) = Inr False))"
        by (simp add: Ex_less_Suc2 All_less_Suc2 Inr False)
      with Cons.IH show ?thesis
        by (simp add: Inr False)
    qed
  qed
qed

text \<open>
  C10, as the code has it: when the pivot map holds a non-nil item under every column's
  alias name and every result row holds a non-nil item at each of the first
  \<open>len(columns)\<close> positions, neither \<open>checkRow\<close> nor \<open>verifyPQS\<close> panics (no index out of
  range, no nil dereference): \<open>checkRow\<close> returns true iff every column position compares
  equal per \<open>compareQueryItem\<close>, and \<open>verifyPQS\<close> returns true iff some row does. The
  precondition is sufficient and not necessary: \<open>checkRow\<close> panics exactly when its loop
  reaches a position at which the precondition fails, all earlier positions comparing
  equal, and \<open>verifyPQS\<close> exactly when \<open>checkRow\<close> does on a row before which every row was
  rejected.
\<close>

theorem checkRow_verifyPQS_safe:
  "(pivot_covers aliasName originRow columns \<and> (\<forall>r \<in> set resultSets. row_covers columns r) \<longrightarrow>
      (\<forall>r \<in> set resultSets.
          checkRow aliasName originRow columns r = Inr (row_matches aliasName originRow columns r))
      \<and> verifyPQS aliasName originRow columns resultSets =
           Inr (\<exists>r \<in> set resultSets. row_matches aliasName originRow columns r))
   \<and> ((\<exists>e. checkRow aliasName originRow columns row = Inl e) =
        (\<exists>i. reaches_failure aliasName originRow columns row i))
   \<and> ((\<exists>e. verifyPQS aliasName originRow columns resultSets = Inl e) =
        (\<exists>k < length resultSets.
           (\<exists>e. checkRow aliasName originRow columns (resultSets ! k) = Inl e)
           \<and> (\<forall>j < k. checkRow aliasName originRow columns (resultSets ! j) = Inr False)))"
proof (intro conjI impI)
  assume a: "pivot_covers aliasName originRow columns \<and> (\<forall>r \<in> set resultSets. row_covers columns r)"
  then show "\<forall>r \<in> set resultSets.
          checkRow aliasName originRow columns r = Inr (row_matches aliasName originRow columns r)"
    by (simp add: checkRow_covered)
  from a show "verifyPQS aliasName originRow columns resultSets =
           Inr (\<exists>r \<in> set resultSets. row_matches aliasName originRow columns r)"
    by (simp add: verifyPQS_covered)
next
  show "(\<exists>e. checkRow aliasName originRow columns row = Inl e) =
        (\<exists>i. reaches_failure aliasName originRow columns row i)"
    by (rule checkRow_panics_iff)
next
  show "(\<exists>e. verifyPQS aliasName originRow columns resultSets = Inl e) =
        (\<exists>k < length resultSets.
           (\<exists>e. checkRow aliasName originRow columns (resultSets ! k) = Inl e)
           \<and> (\<forall>j < k. checkRow aliasName originRow columns (resultSets ! j) = Inr False))"
    by (rule verifyPQS_panics_iff)
qed

theorem checkRow_verifyPQS_safe_witness:
  "verifyPQS Column_Name
     [''t.a'' \<mapsto> \<lparr>Null = False, ValType = ''a'', ValString = ''1''\<rparr>,
      ''t.b'' \<mapsto> \<lparr>Null = True, ValType = ''b'', ValString = ''''\<rparr>]
     [\<lparr>Column_Table = ''t'', Column_Name = ''t.a'', Column_Type = ''int'',
       Column_Length = 11, Column_Null = False\<rparr>,
      \<lparr>Column_Table = ''t'', Column_Name = ''t.b'', Column_Type = ''varchar'',
       Column_Length = 20, Column_Null = True\<rparr>]
     [[Some \<lparr>Null = False, ValType = ''a'', ValString = ''2''\<rparr>,
       Some \<lparr>Null = True, ValType = ''b'', ValString = ''''\<rparr>],
      [Some \<lparr>Null = False, ValType = ''a'', ValString = ''1''\<rparr>,
       Some \<lparr>Null = True, ValType = ''b'', ValString = ''x''\<rparr>,
       None]] = Inr True"
proof -
  let ?p = "[''t.a'' \<mapsto> \<lparr>Null = False, ValType = ''a'', ValString = ''1''\<rparr>,
      ''t.b'' \<mapsto> \<lparr>Null = True, ValType = ''b'', ValString = ''''\<rparr>]"
  let ?cs = "[\<lparr>Column_Table = ''t'', Column_Name = ''t.a'', Column_Type = ''int'',
       Column_Length = 11, Column_Null = False\<rparr>,
      \<lparr>Column_Table = ''t'', Column_Name = ''t.b'', Column_Type = ''varchar'',
       Column_Length = 20, Column_Null = True\<rparr>]"
  let ?rs = "[[Some \<lparr>Null = False, ValType = ''a'', ValString = ''2''\<rparr>,
       Some \<lparr>Null = True, ValType = ''b'', ValString = ''''\<rparr>],
      [Some \<lparr>Null = False, ValType = ''a'', ValString = ''1''\<rparr>,
       Some \<lparr>Null = True, ValType = ''b'', ValString = ''x''\<rparr>,
       None]]"
  have h1: "pivot_covers Column_Name ?p ?cs"
    by (simp add: pivot_covers_def)
  have h2: "\<forall>r \<in> set ?rs. row_covers ?cs r"
    by (simp add: row_covers_Cons row_covers_no_columns)
  from checkRow_verifyPQS_safe [THEN conjunct1, THEN mp, OF conjI [OF h1 h2]] show ?thesis
    by (simp add: row_matches_Cons row_matches_Nil compareQueryItem_def)
qed

text \<open>
  Two inputs on either side of the stated precondition. A row of one item for two
  columns, whose first item differs from the pivot, is rejected without a panic. A row
  that has an item slot for its single column, the pivot map holding a non-nil item
  under the alias, panics when the slot holds a nil pointer.
\<close>

theorem checkRow_precondition_counterexample:
  "checkRow Column_Name
     [''t.a'' \<mapsto> \<lparr>Null = False, ValType = ''a'', ValString = ''1''\<rparr>,
      ''t.b'' \<mapsto> \<lparr>Null = True, ValType = ''b'', ValString = ''''\<rparr>]
     [\<lparr>Column_Table = ''t'', Column_Name = ''t.a'', Column_Type = ''int'',
       Column_Length = 11, Column_Null = False\<rparr>,
      \<lparr>Column_Table = ''t'', Column_Name = ''t.b'', Column_Type = ''varchar'',
       Column_Length = 20, Column_Null = True\<rparr>]
     [Some \<lparr>Null = False, ValType = ''a'', ValString = ''2''\<rparr>] = Inr False
   \<and> checkRow Column_Name
     [''t.a'' \<mapsto> \<lparr>Null = False, ValType = ''a'', ValString = ''1''\<rparr>]
     [\<lparr>Column_Table = ''t'', Column_Name = ''t.a'', Column_Type = ''int'',
       Column_Length = 11, Column_Null = False\<rparr>]
     [None] = Inl NilDereference"
  by (simp add: compareQueryItem_def)

section \<open>Properties of the group comparison\<close>

lemma checkResultSet_loop_all:
  "checkResultSet_loop len xs = (\<forall>r \<in> set xs. length r = len)"
  by (induction xs) auto

lemma checkResultSet_lengths:
  "checkResultSet sets ignoreSort =
     (length (map length sets) < 2 \<or> (\<forall>n \<in> set (map length sets). n = map length sets ! 0))"
  by (cases sets) (auto simp: checkResultSet_def checkResultSet_loop_all)

text \<open>
  C5: \<open>checkResultSet\<close> deems a group correct exactly when it holds fewer than two result
  sets or all its result sets have the same number of rows; two groups with the same row
  counts get the same verdict, whatever their rows hold and whatever \<open>ignoreSort\<close> is.
\<close>

theorem checkResultSet_row_counts:
  "checkResultSet sets ignoreSort =
     (length sets < 2 \<or> (\<forall>r1 \<in> set sets. \<forall>r2 \<in> set sets. length r1 = length r2))
   \<and> (map length sets = map length sets' \<longrightarrow>
        checkResultSet sets ignoreSort = checkResultSet sets' ignoreSort')"
proof
  show "checkResultSet sets ignoreSort =
     (length sets < 2 \<or> (\<forall>r1 \<in> set sets. \<forall>r2 \<in> set sets. length r1 = length r2))"
  proof (cases sets)
    case Nil
    then show ?thesis by (simp add: checkResultSet_def)
  next
    case (Cons x xs)
    then show ?thesis
      by (auto simp: checkResultSet_def checkResultSet_loop_all)
  qed
  show "map length sets = map length sets' \<longrightarrow>
        checkResultSet sets ignoreSort = checkResultSet sets' ignoreSort'"
    by (simp add: checkResultSet_lengths)
qed

theorem checkResultSet_row_counts_witness:
  "checkResultSet [[[Some \<lparr>Null = False, ValType = ''a'', ValString = ''1''\<rparr>]],
                   [[Some \<lparr>Null = False, ValType = ''a'', ValString = ''2''\<rparr>]]] True
   \<and> checkResultSet [[[Some \<lparr>Null = False, ValType = ''a'', ValString = ''1''\<rparr>]],
                   [[Some \<lparr>Null = False, ValType = ''a'', ValString = ''2''\<rparr>]]] True
     = checkResultSet [[[None, None]], [[]]] False
   \<and> \<not> checkResultSet [[[None]], []] True"
  using checkResultSet_row_counts
    [of "[[[Some \<lparr>Null = False, ValType = ''a'', ValString = ''1''\<rparr>]],
          [[Some \<lparr>Null = False, ValType = ''a'', ValString = ''2''\<rparr>]]]" True
        "[[[None, None]], [[]]]" False]
  by (simp add: checkResultSet_def)

section \<open>Properties of the batch counters\<close>

lemma int64_id: "- (2 ^ 63) \<le> x \<Longrightarrow> x < 2 ^ 63 \<Longrightarrow> int64 x = x"
  by (simp add: int64_def)

lemma go_rem_nonneg: "0 \<le> a \<Longrightarrow> go_rem a 100 = a mod 100"
  by (cases "a = 0") (simp_all add: go_rem_def)

lemma run_Suc: "run (Suc n) p = run_iteration (run n p)"
  by (induction n arbitrary: p) simp_all

lemma run_add: "run (m + n) p = run n (run m p)"
  by (induction m arbitrary: p) simp_all

text \<open>
  One pass from a state that holds the counters of pass number \<open>n\<close>, as long as the
  batch counter stays below the largest 64-bit integer.
\<close>

lemma batch_div_step:
  "((k::int) + 1 + 99) div 100 = (k + 99) div 100 + (if k mod 100 = 0 then 1 else 0)"
proof -
  define q r where "q = k div 100" and "r = k mod 100"
  have k: "k = 100 * q + r" and r: "0 \<le> r" "r < 100"
    by (simp_all add: q_def r_def)
  have a: "(k + 1 + 99) div 100 = q + 1"
    unfolding k using r by simp
  have "(100 * q + (r + 99)) div 100 = q + (r + 99) div 100"
    by simp
  then have b: "(k + 99) div 100 = q + (r + 99) div 100"
    unfolding k by (simp add: add.assoc)
  have c: "(r + 99) div 100 = (if r = 0 then 0 else 1)"
  proof (cases "r = 0")
    case True
    then show ?thesis by simp
  next
    case False
    with r have "0 \<le> r - 1" "r - 1 < 100"
      by simp_all
    then have "(r - 1) div 100 = 0"
      by simp
    moreover have "(r + 99) div 100 = (r - 1) div 100 + 1"
      by simp
    ultimately show ?thesis using False by simp
  qed
  show ?thesis
    unfolding a b c by (simp add: r_def)
qed

lemma round_mod_step: "0 \<le> (k::int) \<Longrightarrow> go_rem (int64 (k mod 100 + 1)) 100 = (k + 1) mod 100"
proof -
  assume "0 \<le> k"
  have r: "0 \<le> k mod 100" "k mod 100 < 100"
    by simp_all
  have "int64 (k mod 100 + 1) = k mod 100 + 1"
    using r by (intro int64_id) simp_all
  moreover have "go_rem (k mod 100 + 1) 100 = (k mod 100 + 1) mod 100"
    using r by (intro go_rem_nonneg) simp
  moreover have "(k mod 100 + 1) mod 100 = (k + 1) mod 100"
    by (simp add: mod_simps)
  ultimately show ?thesis by simp
qed

lemma batch_no_overflow:
  assumes "0 \<le> (k::int)" and "k < 100 * (2 ^ 63 - 1)" and "k mod 100 = 0"
  shows "int64 ((k + 99) div 100 + 1) = (k + 99) div 100 + 1"
proof -
  from assms(3) obtain q where q: "k = 100 * q"
    by (auto simp: mod_eq_0_iff_dvd)
  have d: "(k + 99) div 100 = q"
    unfolding q by simp
  from assms(1,2) have "0 \<le> q" and "q < 2 ^ 63 - 1"
    unfolding q by simp_all
  then show ?thesis
    unfolding d by (intro int64_id) simp_all
qed

lemma run_iteration_counters:
  assumes "int n < 100 * (2 ^ 63 - 1)"
    and "p = \<lparr>batch = (int n + 99) div 100, roundInBatch = int n mod 100\<rparr>"
  shows "run_iteration p =
           \<lparr>batch = (int n + 1 + 99) div 100, roundInBatch = (int n + 1) mod 100\<rparr>"
proof -
  define B R B' R' where "B = (int n + 99) div 100" and "R = int n mod 100"
    and "B' = (int n + 1 + 99) div 100" and "R' = (int n + 1) mod 100"
  have step: "B' = B + (if R = 0 then 1 else 0)"
    unfolding B_def R_def B'_def by (rule batch_div_step)
  have rem: "go_rem (int64 (R + 1)) 100 = R'"
    unfolding R_def R'_def by (rule round_mod_step) simp
  have ovf: "int64 (B + 1) = B + 1" if "R = 0"
    unfolding B_def using assms(1) that [unfolded R_def] by (intro batch_no_overflow) simp_all
  have p: "p = \<lparr>batch = B, roundInBatch = R\<rparr>"
    unfolding B_def R_def by (rule assms(2))
  have "run_iteration p = \<lparr>batch = B', roundInBatch = R'\<rparr>"
  proof (cases "R = 0")
    case True
    with ovf [OF True] rem show ?thesis
      by (simp add: run_iteration_def p step)
  next
    case False
    with rem show ?thesis
      by (simp add: run_iteration_def p step)
  qed
  then show ?thesis
    unfolding B'_def R'_def .
qed

lemma run_counters:
  "int n \<le> 100 * (2 ^ 63 - 1) \<Longrightarrow>
     run n NewSQLancer = \<lparr>batch = (int n + 99) div 100, roundInBatch = int n mod 100\<rparr>"
proof (induction n)
  case 0
  then show ?case by (simp add: NewSQLancer_def)
next
  case (Suc n)
  then have lt: "int n < 100 * (2 ^ 63 - 1)"
    by simp
  with Suc.IH have IH: "run n NewSQLancer =
      \<lparr>batch = (int n + 99) div 100, roundInBatch = int n mod 100\<rparr>"
    by simp
  have e: "int (Suc n) = int n + 1"
    by simp
  show ?case
    unfolding run_Suc e by (rule run_iteration_counters [OF lt IH])
qed

text \<open>
  The bound of the hypothesis is where the 64-bit counter wraps: pass number
  \<open>100 * (2^63 - 1)\<close> starts with \<open>batch = 2^63 - 1\<close> and \<open>roundInBatch = 0\<close>.
\<close>

lemma run_iteration_wraps:
  "run_iteration \<lparr>batch = 2 ^ 63 - 1, roundInBatch = 0\<rparr> = \<lparr>batch = - (2 ^ 63), roundInBatch = 1\<rparr>"
  by (simp add: run_iteration_def int64_def go_rem_def)

text \<open>
  C6: in every execution of the main loop from the freshly constructed orchestrator, for
  as long as the batch counter has not passed the largest 64-bit integer (fewer than
  \<open>100 * (2^63 - 1)\<close> passes), the state \<open>p\<close> at the start of a pass has
  \<open>0 \<le> roundInBatch < 100\<close>, the pass does not decrease \<open>batch\<close>, it increments
  \<open>batch\<close> (by one) exactly when \<open>roundInBatch\<close> is 0, and \<open>batch\<close> never decreases
  between an earlier and a later pass.
\<close>

theorem run_batch_state:
  assumes "int n < 100 * (2 ^ 63 - 1)"
  shows "0 \<le> roundInBatch (run n NewSQLancer) \<and> roundInBatch (run n NewSQLancer) < 100
     \<and> batch (run n NewSQLancer) \<le> batch (run_iteration (run n NewSQLancer))
     \<and> (batch (run_iteration (run n NewSQLancer)) = batch (run n NewSQLancer) + 1
          \<longleftrightarrow> roundInBatch (run n NewSQLancer) = 0)
     \<and> (batch (run_iteration (run n NewSQLancer)) \<noteq> batch (run n NewSQLancer)
          \<longleftrightarrow> roundInBatch (run n NewSQLancer) = 0)
     \<and> (\<forall>m \<le> n. batch (run m NewSQLancer) \<le> batch (run n NewSQLancer))"
proof -
  have n: "run n NewSQLancer = \<lparr>batch = (int n + 99) div 100, roundInBatch = int n mod 100\<rparr>"
    using assms by (intro run_counters) simp
  have s: "run_iteration (run n NewSQLancer) =
      \<lparr>batch = (int n + 1 + 99) div 100, roundInBatch = (int n + 1) mod 100\<rparr>"
    by (rule run_iteration_counters [OF assms n])
  have mono: "batch (run m NewSQLancer) \<le> batch (run n NewSQLancer)" if "m \<le> n" for m
  proof -
    have "int m \<le> 100 * (2 ^ 63 - 1)"
      using assms that by simp
    then have "run m NewSQLancer = \<lparr>batch = (int m + 99) div 100, roundInBatch = int m mod 100\<rparr>"
      by (rule run_counters)
    moreover have "(int m + 99) div 100 \<le> (int n + 99) div 100"
      using that by (intro zdiv_mono1) simp_all
    ultimately show ?thesis unfolding n by simp
  qed
  define B R B' R' where "B = (int n + 99) div 100" and "R = int n mod 100"
    and "B' = (int n + 1 + 99) div 100" and "R' = (int n + 1) mod 100"
  have step: "B' = B + (if R = 0 then 1 else 0)"
    unfolding B_def R_def B'_def by (rule batch_div_step)
  have R: "0 \<le> R" "R < 100"
    unfolding R_def by simp_all
  have n': "run n NewSQLancer = \<lparr>batch = B, roundInBatch = R\<rparr>"
    unfolding B_def R_def by (rule n)
  have s': "run_iteration (run n NewSQLancer) = \<lparr>batch = B', roundInBatch = R'\<rparr>"
    unfolding B'_def R'_def by (rule s)
  have m: "\<forall>m \<le> n. batch (run m NewSQLancer) \<le> batch (run n NewSQLancer)"
    using mono by blast
  have "0 \<le> roundInBatch (run n NewSQLancer) \<and> roundInBatch (run n NewSQLancer) < 100
     \<and> batch (run n NewSQLancer) \<le> batch (run_iteration (run n NewSQLancer))
     \<and> (batch (run_iteration (run n NewSQLancer)) = batch (run n NewSQLancer) + 1
          \<longleftrightarrow> roundInBatch (run n NewSQLancer) = 0)
     \<and> (batch (run_iteration (run n NewSQLancer)) \<noteq> batch (run n NewSQLancer)
          \<longleftrightarrow> roundInBatch (run n NewSQLancer) = 0)"
    unfolding s' unfolding n' using R by (simp add: step)
  with m show ?thesis
    by blast
qed

theorem run_batch_state_witness:
  "roundInBatch (run 200 NewSQLancer) = 0 \<and> batch (run 200 NewSQLancer) = 2
   \<and> batch (run_iteration (run 200 NewSQLancer)) = 3"
proof -
  have "run 200 NewSQLancer = \<lparr>batch = 2, roundInBatch = 0\<rparr>"
    by (simp add: run_counters)
  with run_batch_state [of 200] show ?thesis
    by simp
qed

section \<open>Properties of the choice of the approach\<close>

lemma progress_approaches_prefix:
  "r < ViewCount conf \<Longrightarrow> progress_approaches conf r = [approachPQS]"
  by (simp add: progress_approaches_def)

lemma progress_approaches_distinct:
  "ViewCount conf \<le> r \<Longrightarrow> distinct (progress_approaches conf r)"
  by (simp add: progress_approaches_def)

lemma enabled_approaches_union:
  "enabled_approaches conf =
     (if EnableNoRECApproach conf then {approachNoREC} else {})
     \<union> (if EnablePQSApproach conf then {approachPQS} else {})
     \<union> (if EnableTLPApproach conf then {approachTLP} else {})"
proof (rule set_eqI)
  fix a
  show "a \<in> enabled_approaches conf \<longleftrightarrow>
     a \<in> (if EnableNoRECApproach conf then {approachNoREC} else {})
     \<union> (if EnablePQSApproach conf then {approachPQS} else {})
     \<union> (if EnableTLPApproach conf then {approachTLP} else {})"
    by (simp add: enabled_approaches_def)
qed

lemma progress_approaches_enabled:
  "ViewCount conf \<le> r \<Longrightarrow> set (progress_approaches conf r) = enabled_approaches conf"
  by (simp add: progress_approaches_def enabled_approaches_union)

lemma progress_approach_nth:
  "rd < length (progress_approaches conf r) \<Longrightarrow>
     progress_approach conf r rd = Inr (progress_approaches conf r ! rd)"
  by (auto simp: progress_approach_def Let_def)

lemma distinct_index_card:
  assumes "distinct xs" and "a \<in> set xs"
  shows "card {i. i < length xs \<and> xs ! i = a} = 1"
proof -
  from assms(2) obtain i where i: "i < length xs" "xs ! i = a"
    by (auto simp: in_set_conv_nth)
  have "{j. j < length xs \<and> xs ! j = a} = {i}"
    using assms(1) i by (auto simp: nth_eq_iff_index_eq)
  then show ?thesis by simp
qed

text \<open>
  C7: in a round with \<open>roundInBatch < ViewCount\<close> the slice of approaches is \<open>[PQS]\<close>
  whatever the enable flags are, so every draw selects PQS. In a round with
  \<open>roundInBatch \<ge> ViewCount\<close> the slice lists exactly the enabled approaches, each once,
  and the draw \<open>rd\<close> selects the approach at index \<open>rd\<close>: every enabled approach is
  selected by exactly one of the \<open>len(approaches)\<close> equally likely draws, and no other
  approach is selected.
\<close>

theorem progress_approach_choice:
  "(r < ViewCount conf \<longrightarrow>
      progress_approaches conf r = [approachPQS]
      \<and> (\<forall>rd < length (progress_approaches conf r). progress_approach conf r rd = Inr approachPQS))
   \<and> (ViewCount conf \<le> r \<longrightarrow>
      distinct (progress_approaches conf r)
      \<and> set (progress_approaches conf r) = enabled_approaches conf
      \<and> length (progress_approaches conf r) = card (enabled_approaches conf)
      \<and> (\<forall>rd < length (progress_approaches conf r).
            \<exists>a \<in> enabled_approaches conf. progress_approach conf r rd = Inr a)
      \<and> (\<forall>a \<in> enabled_approaches conf.
            card {rd. rd < length (progress_approaches conf r) \<and> progress_approach conf r rd = Inr a} = 1))"
proof (intro conjI impI)
  assume p: "r < ViewCount conf"
  note pre = progress_approaches_prefix [OF p]
  show "progress_approaches conf r = [approachPQS]"
    by (rule pre)
  show "\<forall>rd < length (progress_approaches conf r). progress_approach conf r rd = Inr approachPQS"
  proof (intro allI impI)
    fix rd assume rd: "rd < length (progress_approaches conf r)"
    then have "rd = 0"
      unfolding pre by simp
    then have "progress_approaches conf r ! rd = approachPQS"
      unfolding pre by simp
    with progress_approach_nth [OF rd] show "progress_approach conf r rd = Inr approachPQS"
      by (simp only:)
  qed
next
  assume q: "ViewCount conf \<le> r"
  note d = progress_approaches_distinct [OF q] and e = progress_approaches_enabled [OF q]
  show "distinct (progress_approaches conf r)"
    by (rule d)
  show "set (progress_approaches conf r) = enabled_approaches conf"
    by (rule e)
  show "length (progress_approaches conf r) = card (enabled_approaches conf)"
    unfolding e [symmetric] by (rule distinct_card [OF d, symmetric])
  show "\<forall>rd < length (progress_approaches conf r).
            \<exists>a \<in> enabled_approaches conf. progress_approach conf r rd = Inr a"
  proof (intro allI impI)
    fix rd assume rd: "rd < length (progress_approaches conf r)"
    then have "progress_approaches conf r ! rd \<in> enabled_approaches conf"
      unfolding e [symmetric] by (rule nth_mem)
    with progress_approach_nth [OF rd]
    show "\<exists>a \<in> enabled_approaches conf. progress_approach conf r rd = Inr a"
      by blast
  qed
  show "\<forall>a \<in> enabled_approaches conf.
            card {rd. rd < length (progress_approaches conf r) \<and> progress_approach conf r rd = Inr a} = 1"
  proof
    fix a assume "a \<in> enabled_approaches conf"
    then have a: "a \<in> set (progress_approaches conf r)"
      unfolding e .
    have "(rd < length (progress_approaches conf r) \<and> progress_approach conf r rd = Inr a)
        = (rd < length (progress_approaches conf r) \<and> progress_approaches conf r ! rd = a)" for rd
    proof (cases "rd < length (progress_approaches conf r)")
      case True
      with progress_approach_nth [OF True] show ?thesis by simp
    next
      case False
      then show ?thesis by simp
    qed
    then have "{rd. rd < length (progress_approaches conf r) \<and> progress_approach conf r rd = Inr a}
        = {i. i < length (progress_approaches conf r) \<and> progress_approaches conf r ! i = a}"
      by (simp only:)
    then show "card {rd. rd < length (progress_approaches conf r) \<and> progress_approach conf r rd = Inr a} = 1"
      by (simp only: distinct_index_card [OF d a])
  qed
qed

theorem progress_approach_choice_witness:
  "progress_approach \<lparr>ViewCount = 2, EnableNoRECApproach = True, EnablePQSApproach = False,
       EnableTLPApproach = True, Silent = True\<rparr> 1 0 = Inr approachPQS
   \<and> progress_approach \<lparr>ViewCount = 2, EnableNoRECApproach = True, EnablePQSApproach = False,
       EnableTLPApproach = True, Silent = True\<rparr> 2 1 = Inr approachTLP
   \<and> progress_approaches \<lparr>ViewCount = 2, EnableNoRECApproach = True, EnablePQSApproach = False,
       EnableTLPApproach = True, Silent = True\<rparr> 2 = [approachNoREC, approachTLP]"
  using progress_approach_choice [of 1 "\<lparr>ViewCount = 2, EnableNoRECApproach = True,
       EnablePQSApproach = False, EnableTLPApproach = True, Silent = True\<rparr>"]
    progress_approach_choice [of 2 "\<lparr>ViewCount = 2, EnableNoRECApproach = True,
       EnablePQSApproach = False, EnableTLPApproach = True, Silent = True\<rparr>"]
  by (simp add: progress_approach_def progress_approaches_def)

text \<open>With no approach enabled, a round past the prefix panics in \<open>Rd(0)\<close>.\<close>

lemma progress_approach_none_enabled:
  "ViewCount conf \<le> r \<Longrightarrow> \<not> EnableNoRECApproach conf \<Longrightarrow> \<not> EnablePQSApproach conf \<Longrightarrow>
     \<not> EnableTLPApproach conf \<Longrightarrow> progress_approach conf r rd = Inl IntnInvalidArgument"
  by (simp add: progress_approach_def progress_approaches_def)

section \<open>Properties of the random choice of tables\<close>

lemma randTables_count_bounds:
  assumes "1 \<le> n" and "n > 1 \<longrightarrow> rd1 < n - 1" and "rd4 < 4"
  shows "1 \<le> randTables_count n rd1 rd4"
    and "randTables_count n rd1 rd4 \<le> min n 4"
    and "randTables_count n rd1 rd4 \<le> max 1 (n - 1)"
  using assms by (auto simp: randTables_count_def Let_def)

lemma mset_take_subseteq: "mset (take k xs) \<subseteq># mset xs"
proof -
  have "mset xs = mset (take k xs) + mset (drop k xs)"
    by (metis append_take_drop_id mset_append)
  then show ?thesis by simp
qed

lemma randTables_returns:
  assumes "tables \<noteq> []" and "rng_outcome tables rd1 rd4 shuffled"
  shows "randTables tables rd1 rd4 shuffled =
           Inr (take (randTables_count (length tables) rd1 rd4) shuffled, shuffled)"
    and "length (take (randTables_count (length tables) rd1 rd4) shuffled) =
           randTables_count (length tables) rd1 rd4"
proof -
  from assms(1) have n: "1 \<le> length tables"
    by (cases tables) simp_all
  from assms(2) have len: "length shuffled = length tables"
    by (auto simp: rng_outcome_def dest: mset_eq_length)
  from assms(2) have "randTables_count (length tables) rd1 rd4 \<le> min (length tables) 4"
    by (intro randTables_count_bounds(2) n) (simp_all add: rng_outcome_def)
  then have le: "randTables_count (length tables) rd1 rd4 \<le> length shuffled"
    by (simp add: len)
  then show "randTables tables rd1 rd4 shuffled =
           Inr (take (randTables_count (length tables) rd1 rd4) shuffled, shuffled)"
    by (simp add: randTables_def Let_def)
  from le show "length (take (randTables_count (length tables) rd1 rd4) shuffled) =
           randTables_count (length tables) rd1 rd4"
    by simp
qed

text \<open>
  C4, as the code has it: for a table list of size \<open>n \<ge> 1\<close>, \<open>randTables\<close> returns
  between 1 and \<open>min(n, 4)\<close> tables drawn from the list, and at most \<open>n - 1\<close> of them
  when \<open>n \<ge> 2\<close>; every count \<open>k\<close> with \<open>1 \<le> k \<le> min(max(n - 1, 1), 4)\<close> is returned
  for some outcome of the random number generator.
\<close>

theorem randTables_choice:
  assumes "tables \<noteq> []"
  shows "(rng_outcome tables rd1 rd4 shuffled \<longrightarrow>
           (\<exists>used. randTables tables rd1 rd4 shuffled = Inr (used, shuffled)
              \<and> 1 \<le> length used \<and> length used \<le> min (length tables) 4
              \<and> length used \<le> max 1 (length tables - 1)
              \<and> mset used \<subseteq># mset tables))
     \<and> (\<forall>k. 1 \<le> k \<and> k \<le> min (max 1 (length tables - 1)) 4 \<longrightarrow>
           (\<exists>rd1 rd4 shuffled used. rng_outcome tables rd1 rd4 shuffled
              \<and> randTables tables rd1 rd4 shuffled = Inr (used, shuffled) \<and> length used = k))"
proof (intro conjI impI allI)
  assume o: "rng_outcome tables rd1 rd4 shuffled"
  from assms have n: "1 \<le> length tables"
    by (cases tables) simp_all
  let ?count = "randTables_count (length tables) rd1 rd4"
  from o have h: "length tables > 1 \<longrightarrow> rd1 < length tables - 1" "rd4 < 4"
    and m: "mset shuffled = mset tables"
    by (simp_all add: rng_outcome_def)
  note b = randTables_count_bounds [OF n h]
  note r = randTables_returns [OF assms o]
  have "mset (take ?count shuffled) \<subseteq># mset tables"
    using mset_take_subseteq [of ?count shuffled] by (simp add: m)
  with b r show "\<exists>used. randTables tables rd1 rd4 shuffled = Inr (used, shuffled)
              \<and> 1 \<le> length used \<and> length used \<le> min (length tables) 4
              \<and> length used \<le> max 1 (length tables - 1)
              \<and> mset used \<subseteq># mset tables"
    by simp
next
  fix k assume k: "1 \<le> k \<and> k \<le> min (max 1 (length tables - 1)) 4"
  have o: "rng_outcome tables (k - 1) 0 tables"
    using k by (auto simp: rng_outcome_def)
  have c: "randTables_count (length tables) (k - 1) 0 = k"
    using k by (auto simp: randTables_count_def Let_def)
  from randTables_returns [OF assms o]
  have "randTables tables (k - 1) 0 tables = Inr (take k tables, tables)"
    and "length (take k tables) = k"
    by (simp_all only: c)
  with o show "\<exists>rd1 rd4 shuffled used. rng_outcome tables rd1 rd4 shuffled
              \<and> randTables tables rd1 rd4 shuffled = Inr (used, shuffled) \<and> length used = k"
    by blast
qed

theorem randTables_choice_witness:
  "randTables [base_table ''t0'', base_table ''t1'', base_table ''t2''] 1 0
       [base_table ''t2'', base_table ''t0'', base_table ''t1'']
     = Inr ([base_table ''t2'', base_table ''t0''],
            [base_table ''t2'', base_table ''t0'', base_table ''t1''])"
proof -
  have t: "[base_table ''t0'', base_table ''t1'', base_table ''t2''] \<noteq> []"
    by simp
  from randTables_choice [OF t, of 1 0 "[base_table ''t2'', base_table ''t0'', base_table ''t1'']"]
  show ?thesis
    by (simp add: randTables_def randTables_count_def)
qed

text \<open>
  With two tables, \<open>Rd(1)\<close> is 0 and the count is 1 whatever the generator delivers:
  two tables are never chosen.
\<close>

lemma randTables_two_tables:
  assumes "rng_outcome [a, b] rd1 rd4 shuffled"
  shows "randTables [a, b] rd1 rd4 shuffled = Inr (take 1 shuffled, shuffled)"
proof -
  from assms have "mset shuffled = mset [a, b]"
    by (simp add: rng_outcome_def)
  then have "length shuffled = length [a, b]"
    by (rule mset_eq_length)
  moreover from assms have "rd1 = 0"
    by (simp add: rng_outcome_def)
  ultimately show ?thesis
    by (simp add: randTables_def randTables_count_def)
qed

theorem randTables_two_tables_counterexample:
  "randTables [base_table ''t0'', base_table ''t1''] 0 0 [base_table ''t0'', base_table ''t1'']
     = Inr ([base_table ''t0''], [base_table ''t0'', base_table ''t1''])
   \<and> randTables [base_table ''t0'', base_table ''t1''] 0 1 [base_table ''t0'', base_table ''t1'']
     = Inr ([base_table ''t0''], [base_table ''t0'', base_table ''t1''])
   \<and> randTables [base_table ''t0'', base_table ''t1''] 0 2 [base_table ''t0'', base_table ''t1'']
     = Inr ([base_table ''t0''], [base_table ''t0'', base_table ''t1''])
   \<and> randTables [base_table ''t0'', base_table ''t1''] 0 3 [base_table ''t0'', base_table ''t1'']
     = Inr ([base_table ''t0''], [base_table ''t0'', base_table ''t1''])
   \<and> randTables [base_table ''t0'', base_table ''t1''] 0 0 [base_table ''t1'', base_table ''t0'']
     = Inr ([base_table ''t1''], [base_table ''t1'', base_table ''t0''])
   \<and> randTables [base_table ''t0'', base_table ''t1''] 0 1 [base_table ''t1'', base_table ''t0'']
     = Inr ([base_table ''t1''], [base_table ''t1'', base_table ''t0''])
   \<and> randTables [base_table ''t0'', base_table ''t1''] 0 2 [base_table ''t1'', base_table ''t0'']
     = Inr ([base_table ''t1''], [base_table ''t1'', base_table ''t0''])
   \<and> randTables [base_table ''t0'', base_table ''t1''] 0 3 [base_table ''t1'', base_table ''t0'']
     = Inr ([base_table ''t1''], [base_table ''t1'', base_table ''t0''])"
  by (simp add: randTables_def randTables_count_def)

section \<open>Properties of the pivot row\<close>

lemma pivot_key_dotted:
  "pivot_key foldCase tableName q = foldCase tableName @ ''.'' @ foldCase (ValType q)"
  by (simp add: pivot_key_def Column_String_def)

lemma row_cells_Nil: "row_cells foldCase tableName [] = []"
  by (simp add: row_cells_def)

lemma row_cells_Some:
  "row_cells foldCase tableName (Some q # cs) = (pivot_key foldCase tableName q, q) # row_cells foldCase tableName cs"
  by (simp add: row_cells_def)

lemma store_row_ok:
  "None \<notin> set r \<Longrightarrow>
     store_row foldCase tableName r result = Inr (result ++ map_of (rev (row_cells foldCase tableName r)))"
proof (induction r arbitrary: result)
  case Nil
  then show ?case by (simp add: row_cells_Nil)
next
  case (Cons c cs)
  then obtain q where q: "c = Some q" and cs: "None \<notin> set cs"
    by (cases c) auto
  have "store_row foldCase tableName (c # cs) result =
      Inr (result(pivot_key foldCase tableName q \<mapsto> q) ++ map_of (rev (row_cells foldCase tableName cs)))"
    unfolding q using Cons.IH [OF cs, of "result(pivot_key foldCase tableName q \<mapsto> q)"]
    by (simp only: store_row.simps option.case)
  also have "result(pivot_key foldCase tableName q \<mapsto> q) ++ map_of (rev (row_cells foldCase tableName cs)) =
      result ++ map_of (rev (row_cells foldCase tableName (c # cs)))"
    by (rule ext) (simp add: q row_cells_Some map_add_def split: option.splits)
  finally show ?case .
qed

lemma sampled_cells_no_row: "\<not> has_row execSelect t \<Longrightarrow> sampled_cells foldCase execSelect t = []"
  by (auto simp: has_row_def sampled_cells_def split: sum.splits)

lemma pivot_entries_Nil: "pivot_entries foldCase execSelect [] = []"
  by (simp add: pivot_entries_def)

lemma pivot_entries_Cons:
  "pivot_entries foldCase execSelect (t # ts) = sampled_cells foldCase execSelect t @ pivot_entries foldCase execSelect ts"
  by (simp add: pivot_entries_def)

lemma pivot_entries_filter:
  "pivot_entries foldCase execSelect (filter (has_row execSelect) ts) = pivot_entries foldCase execSelect ts"
  by (induction ts) (simp_all add: pivot_entries_Nil pivot_entries_Cons sampled_cells_no_row)

lemma ChoosePivotedRow_loop_ok:
  "\<forall>t \<in> set ts. select_ok execSelect t \<Longrightarrow>
     ChoosePivotedRow_loop foldCase execSelect ts result reallyUsed =
       Inr (result ++ map_of (rev (pivot_entries foldCase execSelect ts)),
            reallyUsed @ filter (has_row execSelect) ts)"
proof (induction ts arbitrary: result reallyUsed)
  case Nil
  then show ?case by (simp add: pivot_entries_Nil)
next
  case (Cons i rest)
  then have ok: "select_ok execSelect i" and rest: "\<forall>t \<in> set rest. select_ok execSelect t"
    by simp_all
  from ok obtain exeRes where e: "execSelect (pivot_sql i) = Inr exeRes"
    by (auto simp: select_ok_def split: sum.splits)
  show ?case
  proof (cases exeRes)
    case Nil
    then have "\<not> has_row execSelect i" and "sampled_cells foldCase execSelect i = []"
      by (simp_all add: has_row_def sampled_cells_def e)
    then show ?thesis
      using Cons.IH [OF rest, of result reallyUsed] by (simp add: e Nil pivot_entries_Cons)
  next
    case (Cons r rs)
    with ok have r: "None \<notin> set r"
      by (simp add: select_ok_def e)
    have h: "has_row execSelect i"
      and s: "sampled_cells foldCase execSelect i = row_cells foldCase (Table_Name i) r"
      by (simp_all add: has_row_def sampled_cells_def e Cons)
    have "ChoosePivotedRow_loop foldCase execSelect (i # rest) result reallyUsed =
        ChoosePivotedRow_loop foldCase execSelect rest
          (result ++ map_of (rev (row_cells foldCase (Table_Name i) r))) (reallyUsed @ [i])"
      by (simp add: e Cons store_row_ok [OF r])
    also have "\<dots> = Inr ((result ++ map_of (rev (row_cells foldCase (Table_Name i) r)))
          ++ map_of (rev (pivot_entries foldCase execSelect rest)),
        (reallyUsed @ [i]) @ filter (has_row execSelect) rest)"
      by (rule Cons.IH [OF rest])
    also have "(result ++ map_of (rev (row_cells foldCase (Table_Name i) r)))
          ++ map_of (rev (pivot_entries foldCase execSelect rest)) =
        result ++ map_of (rev (pivot_entries foldCase execSelect (i # rest)))"
      by (simp add: pivot_entries_Cons s)
    also have "(reallyUsed @ [i]) @ filter (has_row execSelect) rest =
        reallyUsed @ filter (has_row execSelect) (i # rest)"
      by (simp add: h)
    finally show ?thesis .
  qed
qed

text \<open>
  A map built by storing the entries in their order holds, under a key, the entry that
  no later entry with the same key follows.
\<close>

lemma map_of_rev_last:
  assumes "entries = xs @ (k, q) # ys" and "k \<notin> fst ` set ys"
  shows "map_of (rev entries) k = Some q"
proof -
  from assms(2) have "map_of (rev ys) k = None"
    by (simp add: map_of_eq_None_iff)
  then show ?thesis
    unfolding assms(1) by (simp add: map_add_def)
qed

lemma map_of_rev_distinct:
  assumes "distinct (map fst kvs)" and "(k, v) \<in> set kvs"
  shows "map_of (rev kvs) k = Some v"
proof -
  have "distinct (map fst (rev kvs))"
    using assms(1) by (simp add: rev_map [symmetric])
  moreover have "(k, v) \<in> set (rev kvs)"
    using assms(2) by simp
  ultimately show ?thesis
    by (rule map_of_is_SomeI)
qed

text \<open>
  C2, as the code has it: when the tables are chosen and every sampling statement is
  answered (without a nil cell in the sampled row), \<open>ChoosePivotedRow\<close> returns, without
  error, the tables whose statement returned a row, in their order, and a map whose keys
  are exactly the dotted, case-folded \<open>table.column\<close> names of the sampled cells of those
  tables. The name of every sampled cell is a key of the map, and under a key the map
  holds the cell stored last under it: a sampled cell is held under its name unless a
  cell sampled later has the same name, so every cell is held under its own name when
  the names are pairwise different.
\<close>

theorem ChoosePivotedRow_pivot_map:
  assumes "randTables tables rd1 rd4 shuffled = Inr (usedTables, tables')"
    and "\<forall>t \<in> set usedTables. select_ok execSelect t"
  shows "\<exists>result reallyUsed.
      ChoosePivotedRow foldCase execSelect tables rd1 rd4 shuffled = Inr (result, reallyUsed, tables')
      \<and> reallyUsed = filter (has_row execSelect) usedTables
      \<and> dom result = fst ` set (pivot_entries foldCase execSelect reallyUsed)
      \<and> (\<forall>t \<in> set reallyUsed. \<forall>exeRes. execSelect (pivot_sql t) = Inr exeRes \<longrightarrow>
            (\<forall>q. Some q \<in> set (exeRes ! 0) \<longrightarrow>
               (foldCase (Table_Name t) @ ''.'' @ foldCase (ValType q), q)
                 \<in> set (pivot_entries foldCase execSelect reallyUsed)
               \<and> foldCase (Table_Name t) @ ''.'' @ foldCase (ValType q) \<in> dom result))
      \<and> (\<forall>xs k q ys. pivot_entries foldCase execSelect reallyUsed = xs @ (k, q) # ys
            \<and> k \<notin> fst ` set ys \<longrightarrow> result k = Some q)
      \<and> (distinct (map fst (pivot_entries foldCase execSelect reallyUsed)) \<longrightarrow>
            (\<forall>k q. (k, q) \<in> set (pivot_entries foldCase execSelect reallyUsed) \<longrightarrow>
               result k = Some q))"
proof -
  define reallyUsed where "reallyUsed = filter (has_row execSelect) usedTables"
  define result where "result = map_of (rev (pivot_entries foldCase execSelect reallyUsed))"
  have loop: "ChoosePivotedRow_loop foldCase execSelect usedTables Map.empty []
      = Inr (result, reallyUsed)"
    using ChoosePivotedRow_loop_ok [OF assms(2), where foldCase = foldCase
        and result = Map.empty and reallyUsed = "[]"]
    by (simp add: result_def reallyUsed_def pivot_entries_filter)
  have ret: "ChoosePivotedRow foldCase execSelect tables rd1 rd4 shuffled
      = Inr (result, reallyUsed, tables')"
    by (simp add: ChoosePivotedRow_def assms(1) loop)
  have d: "dom result = fst ` set (pivot_entries foldCase execSelect reallyUsed)"
    by (simp add: result_def dom_map_of_conv_image_fst)
  have cells: "(foldCase (Table_Name t) @ ''.'' @ foldCase (ValType q), q)
                 \<in> set (pivot_entries foldCase execSelect reallyUsed)"
    if t: "t \<in> set reallyUsed" and e: "execSelect (pivot_sql t) = Inr exeRes"
      and q: "Some q \<in> set (exeRes ! 0)" for t exeRes q
  proof -
    from t have "has_row execSelect t"
      by (simp add: reallyUsed_def)
    with e obtain r rs where r: "exeRes = r # rs"
      by (cases exeRes) (simp_all add: has_row_def)
    from q have "(pivot_key foldCase (Table_Name t) q, q) \<in> set (row_cells foldCase (Table_Name t) r)"
      by (auto simp: row_cells_def r intro!: bexI [of _ "Some q"])
    then have "(pivot_key foldCase (Table_Name t) q, q) \<in> set (sampled_cells foldCase execSelect t)"
      by (simp add: sampled_cells_def e r)
    with t show ?thesis
      by (auto simp: pivot_entries_def pivot_key_dotted)
  qed
  have in_dom: "k \<in> dom result"
    if "(k, q) \<in> set (pivot_entries foldCase execSelect reallyUsed)" for k q
    using that unfolding d by force
  have c1: "\<forall>t \<in> set reallyUsed. \<forall>exeRes. execSelect (pivot_sql t) = Inr exeRes \<longrightarrow>
            (\<forall>q. Some q \<in> set (exeRes ! 0) \<longrightarrow>
               (foldCase (Table_Name t) @ ''.'' @ foldCase (ValType q), q)
                 \<in> set (pivot_entries foldCase execSelect reallyUsed)
               \<and> foldCase (Table_Name t) @ ''.'' @ foldCase (ValType q) \<in> dom result)"
    using cells in_dom by blast
  have c2: "\<forall>xs k q ys. pivot_entries foldCase execSelect reallyUsed = xs @ (k, q) # ys
            \<and> k \<notin> fst ` set ys \<longrightarrow> result k = Some q"
    unfolding result_def by (blast intro: map_of_rev_last)
  have c3: "distinct (map fst (pivot_entries foldCase execSelect reallyUsed)) \<longrightarrow>
            (\<forall>k q. (k, q) \<in> set (pivot_entries foldCase execSelect reallyUsed) \<longrightarrow>
               result k = Some q)"
    unfolding result_def by (blast intro: map_of_rev_distinct)
  from ret d c1 c2 c3 show ?thesis
    unfolding reallyUsed_def [symmetric] using reallyUsed_def by blast
qed

theorem ChoosePivotedRow_pivot_map_witness:
  "(case ChoosePivotedRow to_lower example_select
           [base_table ''T0'', base_table ''t1'', base_table ''t2''] 1 0
           [base_table ''t1'', base_table ''T0'', base_table ''t2''] of
      Inl e \<Rightarrow> False
    | Inr (result, reallyUsed, tables') \<Rightarrow>
        reallyUsed = [base_table ''T0'']
        \<and> result ''t0.id'' = Some \<lparr>Null = False, ValType = ''ID'', ValString = ''7''\<rparr>
        \<and> result ''t0.c0'' = Some \<lparr>Null = True, ValType = ''c0'', ValString = []\<rparr>
        \<and> result ''t1.id'' = None)"
proof -
  have h1: "randTables [base_table ''T0'', base_table ''t1'', base_table ''t2''] 1 0
       [base_table ''t1'', base_table ''T0'', base_table ''t2'']
     = Inr ([base_table ''t1'', base_table ''T0''],
            [base_table ''t1'', base_table ''T0'', base_table ''t2''])"
    by (simp add: randTables_def randTables_count_def)
  have h2: "\<forall>t \<in> set [base_table ''t1'', base_table ''T0'']. select_ok example_select t"
    by (simp add: select_ok_def example_select_def pivot_sql_def base_table_def)
  have ev: "(case ChoosePivotedRow to_lower example_select
           [base_table ''T0'', base_table ''t1'', base_table ''t2''] 1 0
           [base_table ''t1'', base_table ''T0'', base_table ''t2''] of
      Inl e \<Rightarrow> False
    | Inr (result, reallyUsed, tables') \<Rightarrow>
        reallyUsed = [base_table ''T0'']
        \<and> result ''t0.id'' = Some \<lparr>Null = False, ValType = ''ID'', ValString = ''7''\<rparr>
        \<and> result ''t0.c0'' = Some \<lparr>Null = True, ValType = ''c0'', ValString = []\<rparr>
        \<and> result ''t1.id'' = None)"
    by code_simp
  from ChoosePivotedRow_pivot_map [OF h1 h2, of to_lower] ev show ?thesis
    by (simp only:)
qed

text \<open>
  Two tables whose names differ in case only are both kept, and their cells get the same
  key: the map returned holds the cell of the table sampled last, and the cell sampled
  from \<open>T0\<close> is under no key.
\<close>

lemma to_lower_examples:
  "to_lower ''T0'' = ''t0''" "to_lower ''t0'' = ''t0''" "to_lower ''id'' = ''id''"
  by code_simp+

theorem ChoosePivotedRow_same_key_counterexample:
  "ChoosePivotedRow to_lower example_select_case
       [base_table ''T0'', base_table ''t0'', base_table ''t2''] 1 0
       [base_table ''T0'', base_table ''t0'', base_table ''t2'']
     = Inr ([''t0.id'' \<mapsto> \<lparr>Null = False, ValType = ''id'', ValString = ''8''\<rparr>],
            [base_table ''T0'', base_table ''t0''],
            [base_table ''T0'', base_table ''t0'', base_table ''t2''])"
  by (simp add: ChoosePivotedRow_def randTables_def randTables_count_def base_table_def
      pivot_sql_def example_select_case_def pivot_key_def Column_String_def to_lower_examples)

section \<open>Properties of a PQS round\<close>

lemma withTxn_runs:
  "action_runs env \<Longrightarrow> snd (withTxn env action) = snd action"
  "action_runs env \<Longrightarrow> schema_calls (fst (withTxn env action)) = schema_calls (fst action)"
  "action_runs env \<Longrightarrow> PrintPivotRows \<in> set (fst action) \<Longrightarrow> PrintPivotRows \<in> set (fst (withTxn env action))"
  by (auto simp: action_runs_def withTxn_def schema_calls_def
      split: option.splits sum.splits panic.splits)

lemma schema_calls_pqs_views:
  "schema_calls (pqs_views conf r stmt env resultRows) =
     (if r \<le> ViewCount conf
      then [CreateViewBySelect (view_name r) (stmt_selectSQL stmt) (length resultRows) (stmt_columns stmt)]
      else [])"
  by (simp add: schema_calls_def pqs_views_def split: option.splits)

lemma schema_calls_Cons_append:
  "schema_calls (ExecSelect s # evs @ evs') = schema_calls evs @ schema_calls evs'"
  by (simp add: schema_calls_def)

lemma pqs_action_correct:
  assumes "selectAnswer env = Inr resultRows"
    and "verifyPQS aliasName (stmt_pivotRows stmt) (stmt_columns stmt) resultRows = Inr True"
  shows "schema_calls (fst (pqs_action aliasName conf r stmt env)) =
           schema_calls (pqs_views conf r stmt env resultRows)
           @ (if r = ViewCount conf
              then LoadSchema # (if loadSchemaPanic env = None then [ReloadSchema] else [])
              else [])"
proof (cases "r = ViewCount conf")
  case True
  show ?thesis
  proof (cases "loadSchemaPanic env")
    case None
    then show ?thesis
      using True assms
      by (cases "reloadSchemaErr env")
         (simp_all add: pqs_action_def schema_calls_Cons_append, simp_all add: schema_calls_def)
  next
    case (Some e)
    then show ?thesis
      using True assms
      by (simp add: pqs_action_def schema_calls_Cons_append) (simp add: schema_calls_def)
  qed
next
  case False
  then show ?thesis
    using assms
    by (simp add: pqs_action_def schema_calls_Cons_append) (simp add: schema_calls_def)
qed

text \<open>
  What a successful PQS round does to the schema: in a PQS round whose action runs and
  whose verification succeeds, the calls that touch the schema are exactly these, in this
  order: when \<open>roundInBatch \<le> ViewCount\<close>, \<open>CreateViewBySelect\<close> with the name
  \<open>view_<roundInBatch>\<close>, the executed statement, the number of result rows and the result
  columns; and when \<open>roundInBatch = ViewCount\<close>, \<open>LoadSchema\<close> and then, once it has
  returned, \<open>ReloadSchema\<close>.
\<close>

lemma progress_PQS_view_seeding:
  assumes "action_runs env"
    and "selectAnswer env = Inr resultRows"
    and "verifyPQS aliasName (stmt_pivotRows stmt) (stmt_columns stmt) resultRows = Inr True"
  shows "schema_calls (fst (progress_PQS aliasName conf r stmt env)) =
           (if r \<le> ViewCount conf
            then [CreateViewBySelect (''view_'' @ Itoa r) (stmt_selectSQL stmt)
                    (length resultRows) (stmt_columns stmt)]
            else [])
           @ (if r = ViewCount conf
              then LoadSchema # (if loadSchemaPanic env = None then [ReloadSchema] else [])
              else [])"
  unfolding progress_PQS_def withTxn_runs(2) [OF assms(1)]
    pqs_action_correct [OF assms(2,3)] schema_calls_pqs_views view_name_def ..

lemma progress_PQS_view_seeding_example:
  "progress_PQS Column_Name
     \<lparr>ViewCount = 2, EnableNoRECApproach = True, EnablePQSApproach = True,
      EnableTLPApproach = True, Silent = True\<rparr> 2 example_stmt
     (example_env [[Some \<lparr>Null = False, ValType = ''id'', ValString = ''7''\<rparr>]])
   = ([Begin, Log ''begin txn success'', ExecSelect ''SELECT t0.id FROM t0 WHERE t0.id = 7'',
       CreateViewBySelect ''view_2'' ''SELECT t0.id FROM t0 WHERE t0.id = 7'' 1
         [\<lparr>Column_Table = ''t0'', Column_Name = ''t0.id'', Column_Type = ''int'',
           Column_Length = 11, Column_Null = False\<rparr>],
       LoadSchema, ReloadSchema, Log ''check finished'', Commit, Log ''commit txn success''],
      Inr None)"
  by code_simp

lemma pqs_action_mismatch:
  assumes "selectAnswer env = Inr resultRows"
    and "verifyPQS aliasName (stmt_pivotRows stmt) (stmt_columns stmt) resultRows = Inr False"
    and "\<not> knownBug env"
  shows "fst (pqs_action aliasName conf r stmt env) =
           [ExecSelect (stmt_selectSQL stmt), IsKnownBug, PrintPivotRows]"
    and "snd (pqs_action aliasName conf r stmt env) =
           (case printPivotRowsPanic env of
              Some e \<Rightarrow> Inl e
            | None \<Rightarrow>
                if r < ViewCount conf \<or> Silent conf then Inl (PanicMsg ''data verified failed'')
                else Inr None)"
  using assms by (simp_all add: pqs_action_def split: option.splits)

text \<open>
  What the code does with a mismatch that is not a known bug, once the pivot row is
  printed: it panics when the round is in the prefix or \<open>Silent\<close> is set, and returns
  otherwise. The NoREC and TLP case tests \<open>Silent\<close> the other way round.
\<close>

lemma progress_PQS_mismatch_outcome:
  assumes "action_runs env"
    and "selectAnswer env = Inr resultRows"
    and "verifyPQS aliasName (stmt_pivotRows stmt) (stmt_columns stmt) resultRows = Inr False"
    and "\<not> knownBug env"
    and "printPivotRowsPanic env = None"
  shows "snd (progress_PQS aliasName conf r stmt env) =
           (if r < ViewCount conf \<or> Silent conf then Inl (PanicMsg ''data verified failed'')
            else Inr None)"
  unfolding progress_PQS_def withTxn_runs(1) [OF assms(1)] pqs_action_mismatch(2) [OF assms(2,3,4)]
  by (simp add: assms(5))

lemma norec_group_mismatch:
  "\<not> checkResultSet resultSet True \<Longrightarrow>
     snd (norec_group conf resultSet) =
       (if \<not> Silent conf then Inl (Fatal ''data verified failed'') else Inr ())"
  by (simp add: norec_group_def)

text \<open>
  C1, as the code has it by design: in a PQS round whose action runs, whose verification
  fails and whose query is not a known bug, the pivot row is printed, whatever the round
  and whatever \<open>Silent\<close> is; and when \<open>roundInBatch < ViewCount\<close> the run aborts with a
  panic, whatever \<open>Silent\<close> is.
\<close>

theorem progress_PQS_mismatch:
  assumes "action_runs env"
    and "selectAnswer env = Inr resultRows"
    and "verifyPQS aliasName (stmt_pivotRows stmt) (stmt_columns stmt) resultRows = Inr False"
    and "\<not> knownBug env"
  shows "PrintPivotRows \<in> set (fst (progress_PQS aliasName conf r stmt env))
     \<and> (r < ViewCount conf \<longrightarrow>
          (\<exists>e. snd (progress_PQS aliasName conf r stmt env) = Inl e)
          \<and> (printPivotRowsPanic env = None \<longrightarrow>
               snd (progress_PQS aliasName conf r stmt env)
                 = Inl (PanicMsg ''data verified failed'')))"
proof -
  note m = pqs_action_mismatch [OF assms(2,3,4), of conf r]
  have "PrintPivotRows \<in> set (fst (pqs_action aliasName conf r stmt env))"
    unfolding m(1) by simp
  then have p: "PrintPivotRows \<in> set (fst (progress_PQS aliasName conf r stmt env))"
    unfolding progress_PQS_def by (rule withTxn_runs(3) [OF assms(1)])
  have s: "snd (progress_PQS aliasName conf r stmt env) =
      (case printPivotRowsPanic env of
         Some e \<Rightarrow> Inl e | None \<Rightarrow> Inl (PanicMsg ''data verified failed''))"
    if "r < ViewCount conf"
    unfolding progress_PQS_def withTxn_runs(1) [OF assms(1)] m(2) using that by simp
  have "(\<exists>e. snd (progress_PQS aliasName conf r stmt env) = Inl e)
          \<and> (printPivotRowsPanic env = None \<longrightarrow>
               snd (progress_PQS aliasName conf r stmt env)
                 = Inl (PanicMsg ''data verified failed''))"
    if "r < ViewCount conf"
    using s [OF that] by (cases "printPivotRowsPanic env") simp_all
  with p show ?thesis
    by blast
qed

theorem progress_PQS_mismatch_witness:
  "PrintPivotRows \<in> set (fst (progress_PQS Column_Name
     \<lparr>ViewCount = 2, EnableNoRECApproach = True, EnablePQSApproach = True,
      EnableTLPApproach = True, Silent = False\<rparr> 1 example_stmt
     (example_env [[Some \<lparr>Null = False, ValType = ''id'', ValString = ''8''\<rparr>]])))
   \<and> snd (progress_PQS Column_Name
     \<lparr>ViewCount = 2, EnableNoRECApproach = True, EnablePQSApproach = True,
      EnableTLPApproach = True, Silent = False\<rparr> 1 example_stmt
     (example_env [[Some \<lparr>Null = False, ValType = ''id'', ValString = ''8''\<rparr>]]))
   = Inl (PanicMsg ''data verified failed'')"
proof -
  let ?rows = "[[Some \<lparr>Null = False, ValType = ''id'', ValString = ''8''\<rparr>]]"
  let ?conf = "\<lparr>ViewCount = 2, EnableNoRECApproach = True, EnablePQSApproach = True,
      EnableTLPApproach = True, Silent = False\<rparr>"
  have h1: "action_runs (example_env ?rows)"
    by (simp add: action_runs_def example_env_def)
  have h2: "selectAnswer (example_env ?rows) = Inr ?rows"
    by (simp add: example_env_def)
  have h3: "verifyPQS Column_Name (stmt_pivotRows example_stmt) (stmt_columns example_stmt) ?rows
      = Inr False"
    by (simp add: example_stmt_def compareQueryItem_def)
  have h4: "\<not> knownBug (example_env ?rows)"
    by (simp add: example_env_def)
  have h5: "1 < ViewCount ?conf"
    by simp
  have h6: "printPivotRowsPanic (example_env ?rows) = None"
    by (simp add: example_env_def)
  note inst = progress_PQS_mismatch [OF h1 h2 h3 h4, of ?conf 1]
  from inst [THEN conjunct1] inst [THEN conjunct2, THEN mp, OF h5, THEN conjunct2, THEN mp, OF h6]
  show ?thesis
    by (simp only: simp_thms)
qed

text \<open>
  With \<open>Silent\<close> set, a mismatch in the first round of a batch (\<open>ViewCount = 2\<close>) is
  printed and the round panics: it is not merely logged.
\<close>

theorem progress_PQS_silent_counterexample:
  "progress_PQS Column_Name
     \<lparr>ViewCount = 2, EnableNoRECApproach = True, EnablePQSApproach = True,
      EnableTLPApproach = True, Silent = True\<rparr> 0 example_stmt
     (example_env [[Some \<lparr>Null = False, ValType = ''id'', ValString = ''8''\<rparr>]])
   = ([Begin, Log ''begin txn success'', ExecSelect ''SELECT t0.id FROM t0 WHERE t0.id = 7'',
       IsKnownBug, PrintPivotRows, Commit, Log ''commit txn success''],
      Inl (PanicMsg ''data verified failed''))"
  by code_simp

text \<open>
  Past the prefix the PQS case tests \<open>Silent\<close> the other way round than the NoREC and TLP
  case: in round 5 (\<open>ViewCount = 2\<close>) a mismatch panics when \<open>Silent\<close> is set and is
  passed over when it is not.
\<close>

lemma progress_PQS_silent_past_prefix:
  "snd (progress_PQS Column_Name
     \<lparr>ViewCount = 2, EnableNoRECApproach = True, EnablePQSApproach = True,
      EnableTLPApproach = True, Silent = True\<rparr> 5 example_stmt
     (example_env [[Some \<lparr>Null = False, ValType = ''id'', ValString = ''8''\<rparr>]]))
   = Inl (PanicMsg ''data verified failed'')"
  "snd (progress_PQS Column_Name
     \<lparr>ViewCount = 2, EnableNoRECApproach = True, EnablePQSApproach = True,
      EnableTLPApproach = True, Silent = False\<rparr> 5 example_stmt
     (example_env [[Some \<lparr>Null = False, ValType = ''id'', ValString = ''8''\<rparr>]]))
   = Inr None"
  by code_simp+

section \<open>Properties of a round\<close>

lemma schema_calls_append: "schema_calls (evs @ evs') = schema_calls evs @ schema_calls evs'"
  by (simp add: schema_calls_def)

lemma norec_nodes_no_schema_call: "schema_calls (fst (norec_nodes nodes)) = []"
  by (induction nodes rule: norec_nodes.induct)
     (simp_all add: schema_calls_def split: sum.splits)

lemma norec_group_no_schema_call: "schema_calls (fst (norec_group conf resultSet)) = []"
  by (simp add: norec_group_def schema_calls_def)

lemma norec_action_no_schema_call: "schema_calls (fst (norec_action conf nodesGroup)) = []"
proof (induction nodesGroup)
  case Nil
  then show ?case by (simp add: schema_calls_def)
next
  case (Cons nodesArr nodesGroup)
  have l: "schema_calls (Log s # evs) = schema_calls evs" for s evs
    by (simp add: schema_calls_def)
  show ?case
    using Cons.IH
    by (simp add: l schema_calls_append norec_nodes_no_schema_call norec_group_no_schema_call
        split: sum.splits)
qed

lemma withTxn_schema_calls:
  "schema_calls (fst (withTxn env action)) =
     (if action_runs env then schema_calls (fst action) else [])"
  by (auto simp: action_runs_def withTxn_def schema_calls_def
      split: option.splits sum.splits panic.splits)

lemma pqs_action_schema_calls_past:
  "r \<noteq> ViewCount conf \<Longrightarrow>
     LoadSchema \<notin> set (fst (pqs_action aliasName conf r stmt env))
     \<and> ReloadSchema \<notin> set (fst (pqs_action aliasName conf r stmt env))"
  by (auto simp: pqs_action_def pqs_views_def split: sum.splits option.splits if_splits)

lemma schema_calls_mem:
  "LoadSchema \<in> set evs \<longleftrightarrow> LoadSchema \<in> set (schema_calls evs)"
  "ReloadSchema \<in> set evs \<longleftrightarrow> ReloadSchema \<in> set (schema_calls evs)"
  by (auto simp: schema_calls_def)

lemma progress_not_PQS:
  assumes "progress_approach conf r rd \<noteq> Inr approachPQS"
  shows "schema_calls (fst (progress aliasName conf r rd stmt nodesGroup env)) = []"
proof (cases "progress_approach conf r rd")
  case (Inl e)
  then show ?thesis
    by (simp add: progress_def schema_calls_def)
next
  case (Inr a)
  with assms have "a \<noteq> approachPQS"
    by simp
  then show ?thesis
    by (cases a) (simp_all add: progress_def Inr withTxn_schema_calls norec_action_no_schema_call)
qed

lemma progress_approach_PQS_enabled:
  assumes "ViewCount conf \<le> r" and "progress_approach conf r rd = Inr approachPQS"
  shows "EnablePQSApproach conf"
proof -
  from assms(2) have rd: "rd < length (progress_approaches conf r)"
    by (auto simp: progress_approach_def Let_def split: if_splits)
  with assms(2) have "progress_approaches conf r ! rd = approachPQS"
    by (simp add: progress_approach_nth)
  with rd have "approachPQS \<in> set (progress_approaches conf r)"
    by (metis nth_mem)
  then have "approachPQS \<in> enabled_approaches conf"
    by (simp only: progress_approaches_enabled [OF assms(1)])
  then show ?thesis
    by (simp add: enabled_approaches_def)
qed

text \<open>
  C3, where the code misses it: a round calls \<open>LoadSchema\<close> or \<open>ReloadSchema\<close> only when
  \<open>roundInBatch = ViewCount\<close> and the draw of that round selects PQS, which takes PQS to
  be enabled; a round at or past \<open>ViewCount\<close> that runs another approach creates no view
  and reloads nothing. The prefix that forces PQS ends before round \<open>ViewCount\<close>, so
  nothing makes the reload happen, and with PQS disabled it never does: the views of the
  prefix rounds are not loaded for the rounds after \<open>ViewCount\<close>.
\<close>

theorem progress_reload_needs_PQS_draw:
  "(LoadSchema \<in> set (fst (progress aliasName conf r rd stmt nodesGroup env))
      \<or> ReloadSchema \<in> set (fst (progress aliasName conf r rd stmt nodesGroup env)) \<longrightarrow>
        r = ViewCount conf \<and> progress_approach conf r rd = Inr approachPQS
        \<and> EnablePQSApproach conf)
   \<and> (ViewCount conf \<le> r \<and> progress_approach conf r rd \<noteq> Inr approachPQS \<longrightarrow>
        schema_calls (fst (progress aliasName conf r rd stmt nodesGroup env)) = [])
   \<and> (\<not> EnablePQSApproach conf \<longrightarrow>
        LoadSchema \<notin> set (fst (progress aliasName conf r rd stmt nodesGroup env))
        \<and> ReloadSchema \<notin> set (fst (progress aliasName conf r rd stmt nodesGroup env)))"
proof -
  let ?P = "progress aliasName conf r rd stmt nodesGroup env"
  have a: "r = ViewCount conf \<and> progress_approach conf r rd = Inr approachPQS
        \<and> EnablePQSApproach conf"
    if h: "LoadSchema \<in> set (fst ?P) \<or> ReloadSchema \<in> set (fst ?P)"
  proof -
    have pqs: "progress_approach conf r rd = Inr approachPQS"
    proof (rule ccontr)
      assume "progress_approach conf r rd \<noteq> Inr approachPQS"
      then have "schema_calls (fst ?P) = []"
        by (rule progress_not_PQS)
      with h show False
        by (simp add: schema_calls_mem)
    qed
    then have P: "?P = progress_PQS aliasName conf r stmt env"
      by (simp add: progress_def)
    have r: "r = ViewCount conf"
    proof (rule ccontr)
      assume "r \<noteq> ViewCount conf"
      then have "LoadSchema \<notin> set (schema_calls (fst (pqs_action aliasName conf r stmt env)))
          \<and> ReloadSchema \<notin> set (schema_calls (fst (pqs_action aliasName conf r stmt env)))"
        using pqs_action_schema_calls_past [of r conf aliasName stmt env]
        by (simp add: schema_calls_mem [symmetric])
      then have "LoadSchema \<notin> set (schema_calls (fst ?P))
          \<and> ReloadSchema \<notin> set (schema_calls (fst ?P))"
        unfolding P progress_PQS_def withTxn_schema_calls by simp
      with h show False
        by (simp add: schema_calls_mem [symmetric])
    qed
    from r pqs have "EnablePQSApproach conf"
      by (intro progress_approach_PQS_enabled [of conf r rd]) simp_all
    with r pqs show ?thesis
      by simp
  qed
  have b: "schema_calls (fst ?P) = []"
    if "ViewCount conf \<le> r \<and> progress_approach conf r rd \<noteq> Inr approachPQS"
    using that by (intro progress_not_PQS) simp
  from a b show ?thesis
    by blast
qed

theorem progress_reload_needs_PQS_draw_witness:
  "progress Column_Name
     \<lparr>ViewCount = 2, EnableNoRECApproach = True, EnablePQSApproach = False,
      EnableTLPApproach = False, Silent = True\<rparr> 2 0 example_stmt example_nodes
     (example_env [[Some \<lparr>Null = False, ValType = ''id'', ValString = ''7''\<rparr>]])
   = ([Begin, Log ''begin txn success'',
       ExecSelect ''SELECT COUNT(*) FROM t0 WHERE t0.id > 3'',
       Log ''SELECT COUNT(*) FROM t0 WHERE t0.id > 3'',
       ExecSelect ''SELECT SUM(t0.id > 3) FROM t0'',
       Log ''SELECT SUM(t0.id > 3) FROM t0'',
       Log ''check finished'', Commit, Log ''commit txn success''],
      Inr None)
   \<and> progress Column_Name
     \<lparr>ViewCount = 2, EnableNoRECApproach = True, EnablePQSApproach = False,
      EnableTLPApproach = False, Silent = True\<rparr> 1 0 example_stmt example_nodes
     (example_env [[Some \<lparr>Null = False, ValType = ''id'', ValString = ''7''\<rparr>]])
   = ([Begin, Log ''begin txn success'', ExecSelect ''SELECT t0.id FROM t0 WHERE t0.id = 7'',
       CreateViewBySelect ''view_1'' ''SELECT t0.id FROM t0 WHERE t0.id = 7'' 1
         [\<lparr>Column_Table = ''t0'', Column_Name = ''t0.id'', Column_Type = ''int'',
           Column_Length = 11, Column_Null = False\<rparr>],
       Log ''check finished'', Commit, Log ''commit txn success''],
      Inr None)"
proof -
  let ?conf = "\<lparr>ViewCount = 2, EnableNoRECApproach = True, EnablePQSApproach = False,
      EnableTLPApproach = False, Silent = True\<rparr>"
  let ?env = "example_env [[Some \<lparr>Null = False, ValType = ''id'', ValString = ''7''\<rparr>]]"
  have h: "ViewCount ?conf \<le> 2 \<and> progress_approach ?conf 2 0 \<noteq> Inr approachPQS"
    by (simp add: progress_approach_def progress_approaches_def)
  have n: "\<not> EnablePQSApproach ?conf"
    by simp
  note inst = progress_reload_needs_PQS_draw
    [where conf = ?conf and r = 2 and rd = 0 and aliasName = Column_Name
      and stmt = example_stmt and nodesGroup = example_nodes and env = ?env]
  note none = inst [THEN conjunct2, THEN conjunct1, THEN mp, OF h]
  note never = inst [THEN conjunct2, THEN conjunct2, THEN mp, OF n]
  have ev: ?thesis
    by code_simp
  from none never ev show ?thesis
    by (simp only:)
qed

section \<open>Properties of the schema cache\<close>

lemma columns_unique_distinct:
  "columns_unique foldCase t = distinct (map (\<lambda>c. foldCase (Column_Name c)) (Table_Columns t))"
  by (auto simp: columns_unique_def EqString_def EqualFold_def distinct_conv_nth)

lemma update_column_names:
  "update_column foldCase cols columnName columnType columnNull = Some cols' \<Longrightarrow>
     map Column_Name cols' = map Column_Name cols"
  by (induction cols arbitrary: cols') (auto split: if_splits)

lemma update_column_None:
  "update_column foldCase cols columnName columnType columnNull = None \<Longrightarrow>
     foldCase columnName \<notin> set (map (\<lambda>c. foldCase (Column_Name c)) cols)"
  by (induction cols) (auto simp: EqString_def EqualFold_def split: if_splits)

lemma update_column_at:
  assumes "distinct (map (\<lambda>c. foldCase (Column_Name c)) cols)"
    and "i < length cols"
    and "EqString foldCase (Column_Name (cols ! i)) columnName"
  shows "update_column foldCase cols columnName columnType columnNull =
           Some (cols[i := (cols ! i)\<lparr>Column_Type := columnType,
                                      Column_Null := EqualFold foldCase columnNull ''Yes''\<rparr>])"
  using assms
proof (induction cols arbitrary: i)
  case Nil
  then show ?case by simp
next
  case (Cons c cs)
  show ?case
  proof (cases i)
    case 0
    with Cons.prems(3) show ?thesis by simp
  next
    case (Suc k)
    with Cons.prems have k: "k < length cs" and e: "EqString foldCase (Column_Name (cs ! k)) columnName"
      and d: "distinct (map (\<lambda>c. foldCase (Column_Name c)) cs)"
      and n: "foldCase (Column_Name c) \<notin> set (map (\<lambda>c. foldCase (Column_Name c)) cs)"
      by simp_all
    from k have "foldCase (Column_Name (cs ! k)) \<in> set (map (\<lambda>c. foldCase (Column_Name c)) cs)"
      by (auto intro!: image_eqI [of _ _ "cs ! k"])
    with n have "foldCase (Column_Name c) \<noteq> foldCase (Column_Name (cs ! k))"
      by metis
    with e have ne: "\<not> EqString foldCase (Column_Name c) columnName"
      by (simp add: EqString_def EqualFold_def)
    from Cons.IH [OF d k e] ne show ?thesis
      by (simp add: Suc)
  qed
qed

lemma columns_unique_update:
  assumes "columns_unique foldCase t"
    and "update_column foldCase (Table_Columns t) columnName columnType columnNull = Some cols"
  shows "columns_unique foldCase (t\<lparr>Table_Columns := cols\<rparr>)"
proof -
  have "map (\<lambda>c. foldCase (Column_Name c)) cols = map foldCase (map Column_Name cols)"
    by simp
  also have "\<dots> = map foldCase (map Column_Name (Table_Columns t))"
    by (simp only: update_column_names [OF assms(2)])
  also have "\<dots> = map (\<lambda>c. foldCase (Column_Name c)) (Table_Columns t)"
    by simp
  finally show ?thesis
    using assms(1) by (simp add: columns_unique_distinct)
qed

lemma columns_unique_append:
  assumes "columns_unique foldCase t"
    and "update_column foldCase (Table_Columns t) columnName columnType columnNull = None"
  shows "columns_unique foldCase (t\<lparr>Table_Columns := Table_Columns t
           @ [new_column foldCase parseType tableName columnName columnType columnNull]\<rparr>)"
  using assms(1) update_column_None [OF assms(2)]
  by (simp add: columns_unique_distinct new_column_def)

lemma columns_unique_new_table:
  "columns_unique foldCase \<lparr>Table_Name = n, Table_Columns = [], Table_Indexes = ix, Table_Type = ty\<rparr>"
  by (simp add: columns_unique_def)

lemma loadSchema_record_unique:
  assumes "cache_unique foldCase e_tables"
  shows "cache_unique foldCase (loadSchema_record foldCase parseType db indexes e_tables rec)"
proof -
  obtain dbname tableName tableType columnName columnType columnNull
    where rec: "rec = (dbname, tableName, tableType, columnName, columnType, columnNull)"
    by (cases rec) auto
  show ?thesis
  proof (cases "dbname = db")
    case False
    with assms show ?thesis
      by (simp add: loadSchema_record_def rec)
  next
    case True
    define t where "t = (case e_tables tableName of
        Some t \<Rightarrow> t
      | None \<Rightarrow> \<lparr>Table_Name = tableName, Table_Columns = [],
           Table_Indexes = (case indexes tableName of Some ix \<Rightarrow> ix | None \<Rightarrow> []),
           Table_Type = tableType\<rparr>)"
    have t: "columns_unique foldCase t"
      using assms unfolding t_def
      by (auto simp: cache_unique_def columns_unique_new_table split: option.splits)
    define t' where "t' = (case update_column foldCase (Table_Columns t) columnName columnType columnNull of
        Some cols \<Rightarrow> t\<lparr>Table_Columns := cols\<rparr>
      | None \<Rightarrow> t\<lparr>Table_Columns := Table_Columns t
           @ [new_column foldCase parseType tableName columnName columnType columnNull]\<rparr>)"
    have t': "columns_unique foldCase t'"
      unfolding t'_def using columns_unique_update [OF t] columns_unique_append [OF t]
      by (auto split: option.splits)
    have "loadSchema_record foldCase parseType db indexes e_tables rec = e_tables(tableName \<mapsto> t')"
      by (simp add: loadSchema_record_def rec True Let_def t_def t'_def split: option.splits)
    with assms t' show ?thesis
      by (simp add: cache_unique_def)
  qed
qed

lemma loadSchema_loop_unique:
  "cache_unique foldCase e_tables \<Longrightarrow> cache_unique foldCase (loadSchema_loop foldCase parseType db indexes records e_tables)"
  by (induction records arbitrary: e_tables) (simp_all add: loadSchema_record_unique)

lemma loadSchema_unique: "cache_unique foldCase (loadSchema foldCase parseType db records indexes)"
  unfolding loadSchema_def by (rule loadSchema_loop_unique) (simp add: cache_unique_def)

lemma reloadSchema_unique:
  "reloadSchema foldCase parseType db fetchSchema fetchIndexes e_tables = (None, e_tables') \<Longrightarrow>
     cache_unique foldCase e_tables'"
  by (auto simp: reloadSchema_def loadSchema_unique split: sum.splits)

lemma loadSchema_record_in_place:
  assumes "columns_unique foldCase t" and "e_tables tableName = Some t"
    and "i < length (Table_Columns t)"
    and "EqString foldCase (Column_Name (Table_Columns t ! i)) columnName"
  shows "loadSchema_record foldCase parseType db indexes e_tables
           (db, tableName, tableType, columnName, columnType, columnNull)
         = e_tables(tableName \<mapsto> t\<lparr>Table_Columns := (Table_Columns t)
             [i := (Table_Columns t ! i)\<lparr>Column_Type := columnType,
                                         Column_Null := EqualFold foldCase columnNull ''Yes''\<rparr>]\<rparr>)"
proof -
  from assms(1) have d: "distinct (map (\<lambda>c. foldCase (Column_Name c)) (Table_Columns t))"
    by (simp add: columns_unique_distinct)
  show ?thesis
    by (simp add: loadSchema_record_def assms(2) Let_def update_column_at [OF d assms(3,4)])
qed

lemma loadSchema_record_new_table:
  "e_tables tableName = None \<Longrightarrow>
     loadSchema_record foldCase parseType db indexes e_tables
         (db, tableName, tableType, columnName, columnType, columnNull)
       = e_tables(tableName \<mapsto>
           \<lparr>Table_Name = tableName,
            Table_Columns = [new_column foldCase parseType tableName columnName columnType columnNull],
            Table_Indexes = (case indexes tableName of Some ix \<Rightarrow> ix | None \<Rightarrow> []),
            Table_Type = tableType\<rparr>)"
  by (simp add: loadSchema_record_def Let_def)

text \<open>
  C8, as the code has it: in the cache that \<open>loadSchema\<close> builds, and in the cache that a
  successful \<open>reloadSchema\<close> leaves, the column identifiers of every table are pairwise
  distinct modulo case. A record of the target database whose table name is a key of the
  cache, exactly as fetched, and whose column equals, up to case, the column at index \<open>i\<close>
  of that table leaves the number and the names of the columns as they are: it
  overwrites the type and the nullability of that column in place. A record whose table
  name is not a key of the cache, also when it differs from a key in case only, opens a
  new entry with that one column.
\<close>

theorem loadSchema_columns_unique:
  "(\<forall>tn tb. loadSchema foldCase parseType db records indexes tn = Some tb \<longrightarrow>
      columns_unique foldCase tb)
   \<and> (reloadSchema foldCase parseType db fetchSchema fetchIndexes e_tables = (None, e_tables') \<longrightarrow>
        (\<forall>tn tb. e_tables' tn = Some tb \<longrightarrow> columns_unique foldCase tb))
   \<and> (columns_unique foldCase t \<and> e_tables tableName = Some t \<and> i < length (Table_Columns t)
        \<and> EqString foldCase (Column_Name (Table_Columns t ! i)) columnName \<longrightarrow>
        loadSchema_record foldCase parseType db indexes e_tables
            (db, tableName, tableType, columnName, columnType, columnNull)
          = e_tables(tableName \<mapsto> t\<lparr>Table_Columns := (Table_Columns t)
              [i := (Table_Columns t ! i)\<lparr>Column_Type := columnType,
                    Column_Null := EqualFold foldCase columnNull ''Yes''\<rparr>]\<rparr>))
   \<and> (e_tables tableName = None \<longrightarrow>
        loadSchema_record foldCase parseType db indexes e_tables
            (db, tableName, tableType, columnName, columnType, columnNull)
          = e_tables(tableName \<mapsto>
              \<lparr>Table_Name = tableName,
               Table_Columns =
                 [new_column foldCase parseType tableName columnName columnType columnNull],
               Table_Indexes = (case indexes tableName of Some ix \<Rightarrow> ix | None \<Rightarrow> []),
               Table_Type = tableType\<rparr>))"
proof (intro conjI impI)
  show "\<forall>tn tb. loadSchema foldCase parseType db records indexes tn = Some tb \<longrightarrow>
      columns_unique foldCase tb"
    using loadSchema_unique [of foldCase parseType db records indexes]
    by (simp add: cache_unique_def)
next
  assume "reloadSchema foldCase parseType db fetchSchema fetchIndexes e_tables = (None, e_tables')"
  then have "cache_unique foldCase e_tables'"
    by (rule reloadSchema_unique)
  then show "\<forall>tn tb. e_tables' tn = Some tb \<longrightarrow> columns_unique foldCase tb"
    by (simp add: cache_unique_def)
next
  assume "columns_unique foldCase t \<and> e_tables tableName = Some t \<and> i < length (Table_Columns t)
        \<and> EqString foldCase (Column_Name (Table_Columns t ! i)) columnName"
  then show "loadSchema_record foldCase parseType db indexes e_tables
            (db, tableName, tableType, columnName, columnType, columnNull)
          = e_tables(tableName \<mapsto> t\<lparr>Table_Columns := (Table_Columns t)
              [i := (Table_Columns t ! i)\<lparr>Column_Type := columnType,
                    Column_Null := EqualFold foldCase columnNull ''Yes''\<rparr>]\<rparr>)"
    by (intro loadSchema_record_in_place) simp_all
next
  assume "e_tables tableName = None"
  then show "loadSchema_record foldCase parseType db indexes e_tables
            (db, tableName, tableType, columnName, columnType, columnNull)
          = e_tables(tableName \<mapsto>
              \<lparr>Table_Name = tableName,
               Table_Columns =
                 [new_column foldCase parseType tableName columnName columnType columnNull],
               Table_Indexes = (case indexes tableName of Some ix \<Rightarrow> ix | None \<Rightarrow> []),
               Table_Type = tableType\<rparr>)"
    by (rule loadSchema_record_new_table)
qed

theorem loadSchema_columns_unique_witness:
  "columns_unique to_lower example_t0
   \<and> EqString to_lower (Column_Name (Table_Columns example_t0 ! 0)) ''ID''
   \<and> loadSchema_record to_lower example_parseType ''test'' Map.empty [''t0'' \<mapsto> example_t0]
        (''test'', ''t0'', ''BASE TABLE'', ''ID'', ''bigint(20)'', ''YES'') ''t0''
       = Some example_t0_updated
   \<and> loadSchema_record to_lower example_parseType ''test'' Map.empty [''t0'' \<mapsto> example_t0]
        (''test'', ''T0'', ''BASE TABLE'', ''ID'', ''bigint(20)'', ''YES'') ''t0''
       = Some example_t0
   \<and> loadSchema to_lower example_parseType ''test'' example_records Map.empty ''t0''
       = Some example_t0_updated
   \<and> columns_unique to_lower example_t0_updated
   \<and> reloadSchema to_lower example_parseType ''test'' (Inr example_records) (\<lambda>t. Inr [])
        [''t0'' \<mapsto> example_t0]
       = (None, loadSchema to_lower example_parseType ''test'' example_records
                  [''user'' \<mapsto> [], ''t0'' \<mapsto> []])"
proof -
  have u: "columns_unique to_lower example_t0"
    unfolding columns_unique_distinct by code_simp
  have e: "EqString to_lower (Column_Name (Table_Columns example_t0 ! 0)) ''ID''"
    by code_simp
  have h: "columns_unique to_lower example_t0 \<and> [''t0'' \<mapsto> example_t0] ''t0'' = Some example_t0
      \<and> 0 < length (Table_Columns example_t0)
      \<and> EqString to_lower (Column_Name (Table_Columns example_t0 ! 0)) ''ID''"
    using u e by (simp add: example_t0_def)
  have n: "[''t0'' \<mapsto> example_t0] ''T0'' = None"
    by simp
  have s: "loadSchema_record to_lower example_parseType ''test'' Map.empty [''t0'' \<mapsto> example_t0]
        (''test'', ''t0'', ''BASE TABLE'', ''ID'', ''bigint(20)'', ''YES'') ''t0''
       = Some example_t0_updated"
    by code_simp
  have l: "loadSchema to_lower example_parseType ''test'' example_records Map.empty ''t0''
       = Some example_t0_updated"
    by code_simp
  have r: "reloadSchema to_lower example_parseType ''test'' (Inr example_records) (\<lambda>t. Inr [])
        [''t0'' \<mapsto> example_t0]
       = (None, loadSchema to_lower example_parseType ''test'' example_records
                  [''user'' \<mapsto> [], ''t0'' \<mapsto> []])"
    by (simp add: reloadSchema_def example_records_def)
  note inst = loadSchema_columns_unique [where foldCase = to_lower
      and parseType = example_parseType
      and db = "''test''" and records = example_records and indexes = Map.empty
      and fetchSchema = "Inr example_records" and fetchIndexes = "\<lambda>t. Inr []"
      and e_tables = "[''t0'' \<mapsto> example_t0]"
      and e_tables' = "loadSchema to_lower example_parseType ''test'' example_records
                  [''user'' \<mapsto> [], ''t0'' \<mapsto> []]"
      and t = example_t0 and i = 0 and columnName = "''ID''"
      and tableType = "''BASE TABLE''" and columnType = "''bigint(20)''"
      and columnNull = "''YES''"]
  from inst [where tableName = "''t0''", THEN conjunct1] l
  have u': "columns_unique to_lower example_t0_updated"
    by blast
  from inst [where tableName = "''t0''", THEN conjunct2, THEN conjunct1, THEN mp, OF r]
  have c: "\<forall>tn tb. loadSchema to_lower example_parseType ''test'' example_records
                  [''user'' \<mapsto> [], ''t0'' \<mapsto> []] tn = Some tb \<longrightarrow> columns_unique to_lower tb" .
  from inst [where tableName = "''T0''", THEN conjunct2, THEN conjunct2, THEN conjunct2,
      THEN mp, OF n]
  have k: "loadSchema_record to_lower example_parseType ''test'' Map.empty [''t0'' \<mapsto> example_t0]
        (''test'', ''T0'', ''BASE TABLE'', ''ID'', ''bigint(20)'', ''YES'') ''t0''
       = Some example_t0"
    by simp
  from inst [where tableName = "''t0''", THEN conjunct2, THEN conjunct2, THEN conjunct1,
      THEN mp, OF h] u e s k l u' r
  show ?thesis
    by (simp only: simp_thms)
qed

text \<open>
  A record for the column \<open>a\<close> of \<open>T1\<close> after one for the column \<open>A\<close> of \<open>t1\<close>: the pair
  matches the cached column up to case, and yet the record opens a second table instead
  of updating \<open>t1.A\<close>, which keeps its type and nullability.
\<close>

theorem loadSchema_table_case_counterexample:
  "loadSchema to_lower example_parseType ''test'' example_records_case Map.empty ''t1''
     = Some \<lparr>Table_Name = ''t1'',
             Table_Columns =
               [\<lparr>Column_Table = ''t1'', Column_Name = ''A'', Column_Type = ''int'',
                 Column_Length = 0, Column_Null = False\<rparr>],
             Table_Indexes = [], Table_Type = ''BASE TABLE''\<rparr>
   \<and> loadSchema to_lower example_parseType ''test'' example_records_case Map.empty ''T1''
     = Some \<lparr>Table_Name = ''T1'',
             Table_Columns =
               [\<lparr>Column_Table = ''T1'', Column_Name = ''a'', Column_Type = ''bigint'',
                 Column_Length = 0, Column_Null = True\<rparr>],
             Table_Indexes = [], Table_Type = ''BASE TABLE''\<rparr>"
  by code_simp

end
